theory Spec2Isabelle
  imports Complex_Main "HOL-Library.Word"
begin

section \<open>Voltmeter\_kV\_TFT: a shallow embedding of the sketch\<close>

text \<open>
  The sketch \<^verbatim>\<open>Voltmeter_esp_tft.ino\<close> is a single-threaded Arduino program: \<^verbatim>\<open>setup()\<close>
  runs once, then \<^verbatim>\<open>loop()\<close> runs for ever. Its globals and the \<^verbatim>\<open>static\<close> timestamps of
  \<^verbatim>\<open>loop()\<close> become one record that every function takes and returns; every call into a
  peripheral (pin, ADC, display, serial port, LED) becomes an event, and a function
  returns the list of events it caused, in program order.

  Numbers. A \<^verbatim>\<open>float\<close> is a real number that binary32 can represent, and every
  \<^verbatim>\<open>float\<close> operation of the sketch is the exact operation followed by the rounding \<open>f32\<close>
  defined below; a \<^verbatim>\<open>float\<close> literal is the rounding of its decimal value. \<^verbatim>\<open>uint32_t\<close> is
  \<^typ>\<open>32 word\<close> (subtraction wraps, as \<^verbatim>\<open>millis() - start\<close> does), \<^verbatim>\<open>uint16_t\<close> is
  \<^typ>\<open>16 word\<close>, \<^verbatim>\<open>int\<close> is \<^typ>\<open>int\<close> (the pixel coordinates stay far from its range).
\<close>

subsection \<open>Binary32 arithmetic\<close>

text \<open>
  Rounding to the nearest integer, to the even one on a tie.
\<close>

definition round_half_even :: "real \<Rightarrow> int" where
  "round_half_even x =
     (let f = \<lfloor>x\<rfloor>; d = x - of_int f
      in if d < 1 / 2 then f else if 1 / 2 < d then f + 1 else if even f then f else f + 1)"

text \<open>
  The spacing of the binary32 numbers around a magnitude \<open>a\<close>: the smallest power of two
  \<open>q\<close>, from \<open>2^-149\<close> (the spacing of the subnormal numbers) up to \<open>2^104\<close> (the spacing
  of the largest binade), with \<open>a < q * 2^24\<close>. \<open>quantum_from n q a\<close> searches upwards from
  \<open>q\<close>, at most \<open>n\<close> doublings.
\<close>

fun quantum_from :: "nat \<Rightarrow> real \<Rightarrow> real \<Rightarrow> real" where
  "quantum_from 0 q a = q"
| "quantum_from (Suc n) q a = (if a < q * 2 ^ 24 then q else quantum_from n (2 * q) a)"

definition quantum :: "real \<Rightarrow> real" where
  "quantum a = quantum_from 253 (1 / 2 ^ 149) a"

text \<open>
  \<open>f32 x\<close> is the binary32 number nearest to \<open>x\<close>, ties to the even significand: the
  default rounding of IEEE 754, which the compiler and the FPU of the board apply to every
  literal, conversion and operation on \<^verbatim>\<open>float\<close>, one rounding per operation. Overflow to
  infinity is not modelled (a magnitude of \<open>2^128\<close> or more is rounded on the spacing
  \<open>2^104\<close>); the magnitudes of the sketch stay below 128. \<open>is_f32 x\<close> says that \<open>x\<close> is a
  finite binary32 number.
\<close>

definition f32 :: "real \<Rightarrow> real" where
  "f32 x = of_int (round_half_even (x / quantum \<bar>x\<bar>)) * quantum \<bar>x\<bar>"

definition is_f32 :: "real \<Rightarrow> bool" where
  "is_f32 x = (f32 x = x \<and> \<bar>x\<bar> < 2 ^ 128)"

subsection \<open>Configuration\<close>

definition VERSION_STR :: string where
  "VERSION_STR = ''v1.0.0''"

text \<open>
  The \<^verbatim>\<open>float\<close> constants \<^verbatim>\<open>65535.0f\<close>, \<^verbatim>\<open>0.5f\<close> and \<^verbatim>\<open>0.50f\<close> are binary32 numbers as they
  stand; \<^verbatim>\<open>3.3f\<close> and \<^verbatim>\<open>0.001f\<close> are not, and are rounded.
\<close>

definition ADC_MAX_CODE :: real where
  "ADC_MAX_CODE = 65535"

definition FS_V_MODE :: real where
  "FS_V_MODE = f32 (33 / 10)"

definition FS_KV_MODE :: real where
  "FS_KV_MODE = 1 / 2"

definition ALPHA :: real where
  "ALPHA = 1 / 2"

definition REDRAW_THRESHOLD :: real where
  "REDRAW_THRESHOLD = f32 (1 / 1000)"

definition MEAS_INTERVAL_MS :: "32 word" where
  "MEAS_INTERVAL_MS = 17"

definition SER_INTERVAL_MS :: "32 word" where
  "SER_INTERVAL_MS = 101"

definition DISP_INTERVAL_MS :: "32 word" where
  "DISP_INTERVAL_MS = 250"

definition HB_PERIOD_MS :: "32 word" where
  "HB_PERIOD_MS = 1000"

definition HB_ON_MS :: "32 word" where
  "HB_ON_MS = 15"

definition BAR_Y :: int where "BAR_Y = 32"
definition BAR_H :: int where "BAR_H = 12"
definition AXIS_Y :: int where "AXIS_Y = 46"
definition TICK_H :: int where "TICK_H = 4"
definition BAR_X_START :: int where "BAR_X_START = 10"
definition BAR_X_END :: int where "BAR_X_END = 230"

type_synonym color = "16 word"

definition TAN_PALLADIAN :: color where "TAN_PALLADIAN = 0xF6B2"
definition ORA_BURNING :: color where "ORA_BURNING = 0xFD20"
definition ORA_AMBER :: color where "ORA_AMBER = 0xFFE0"
definition RST_MID_FOOTER :: color where "RST_MID_FOOTER = 0xB306"
definition RST_COPPER :: color where "RST_COPPER = 0xB440"
definition COL_BLACK :: color where "COL_BLACK = 0x0000"

record ColorTheme =
  bg :: color
  primary :: color
  secondary :: color
  accent :: color
  footer :: color
  erase :: color

definition Theme :: ColorTheme where
  "Theme = \<lparr> bg = COL_BLACK, primary = ORA_BURNING, secondary = ORA_AMBER,
             accent = RST_COPPER, footer = RST_MID_FOOTER, erase = COL_BLACK \<rparr>"

subsection \<open>Peripherals as events\<close>

datatype adc_attenuation = ADC_0db | ADC_11db

datatype font = u8g2_font_inb27_mn | u8g2_font_9x15_tr

text \<open>
  One constructor per peripheral call of the sketch. \<open>DigitalRead_MODE lvl\<close> is
  \<^verbatim>\<open>digitalRead(MODE_PIN)\<close> returning \<open>lvl\<close> (\<open>True\<close> is HIGH); \<open>AnalogRead c\<close> is
  \<^verbatim>\<open>analogRead(VOLT_PIN)\<close> returning the code \<open>c\<close>; the \<open>tft\<close> and \<open>u8g2\<close> calls carry their
  arguments; \<open>SerialPrint\<close> is \<^verbatim>\<open>Serial.print\<close>; \<open>DigitalWrite_LED\<close> is
  \<^verbatim>\<open>digitalWrite(LED_BUILTIN, _)\<close>.
\<close>

datatype event =
    DigitalRead_MODE bool
  | AnalogSetAttenuation adc_attenuation
  | AnalogRead "16 word"
  | FillScreen color
  | FillRect int int int int color
  | DrawFastHLine int int int color
  | DrawFastVLine int int int color
  | SetFont font
  | SetForegroundColor color
  | SetBackgroundColor color
  | SetCursor int int
  | Print string
  | SerialPrint string
  | DigitalWrite_LED bool

text \<open>The calls that change pixels: the display capability of the renderer.\<close>

fun is_draw :: "event \<Rightarrow> bool" where
  "is_draw (FillScreen c) = True"
| "is_draw (FillRect x y w h c) = True"
| "is_draw (DrawFastHLine x y w c) = True"
| "is_draw (DrawFastVLine x y h c) = True"
| "is_draw (SetFont f) = True"
| "is_draw (SetForegroundColor c) = True"
| "is_draw (SetBackgroundColor c) = True"
| "is_draw (SetCursor x y) = True"
| "is_draw (Print s) = True"
| "is_draw (DigitalRead_MODE l) = False"
| "is_draw (AnalogSetAttenuation a) = False"
| "is_draw (AnalogRead c) = False"
| "is_draw (SerialPrint s) = False"
| "is_draw (DigitalWrite_LED l) = False"

subsection \<open>Program state\<close>

text \<open>
  The globals \<^verbatim>\<open>filtered_V\<close>, \<^verbatim>\<open>last_disp_V\<close>, \<^verbatim>\<open>use_hv_mode\<close>, \<^verbatim>\<open>last_hv_mode\<close>, the four
  \<^verbatim>\<open>static\<close> timestamps of \<^verbatim>\<open>loop()\<close>, and two pieces of hardware state the sketch
  writes: the ADC attenuation last set by \<^verbatim>\<open>analogSetAttenuation\<close> and the level of the
  heartbeat LED (read back by \<^verbatim>\<open>digitalRead(LED_BUILTIN)\<close>).
\<close>

record state =
  filtered_V :: real
  last_disp_V :: real
  use_hv_mode :: bool
  last_hv_mode :: bool
  t_meas :: "32 word"
  t_disp :: "32 word"
  t_ser :: "32 word"
  t_hb :: "32 word"
  hw_atten :: adc_attenuation
  led :: bool

text \<open>
  What one pass of \<^verbatim>\<open>loop()\<close> reads from outside: the millisecond clock, the codes the
  successive \<^verbatim>\<open>analogRead\<close> calls of one measurement return, the level of the mode pin,
  and whether the serial port is up (the test \<^verbatim>\<open>if (Serial)\<close> of \<^verbatim>\<open>echo\<close>). The clock is read
  once per pass: activity bodies take no time.
\<close>

record inputs =
  millis :: "32 word"
  adc :: "nat \<Rightarrow> 16 word"
  mode_pin :: bool
  serial_up :: bool

text \<open>
  Two things the sketch takes from its libraries and its build: the pixel width of a
  string in a font (\<^verbatim>\<open>u8g2.getUTF8Width\<close> after \<^verbatim>\<open>setFont\<close>), and the base name of
  \<^verbatim>\<open>__FILE__\<close> that \<^verbatim>\<open>initHardware\<close> copies into \<^verbatim>\<open>display_filename_str\<close>. They are
  parameters of the model.
\<close>

record platform =
  getUTF8Width :: "font \<Rightarrow> string \<Rightarrow> int"
  display_filename_str :: string

subsection \<open>Text conversions of the C library\<close>

text \<open>
  \<^verbatim>\<open>sprintf\<close> and \<^verbatim>\<open>dtostrf\<close> are library code. Their conversions are written out here as
  the C standard describes them: \<^verbatim>\<open>%u\<close> is the decimal digits of the number, a field
  width pads on the left with spaces, \<^verbatim>\<open>%.Nf\<close> is the sign, the integer digits, a point and
  exactly N fractional digits of the value rounded to N places (to even on a tie).
  \<^verbatim>\<open>dtostrf(x, w, p, buf)\<close> is \<^verbatim>\<open>%w.pf\<close>.
\<close>

definition digit_char :: "nat \<Rightarrow> char" where
  "digit_char d = ''0123456789'' ! (d mod 10)"

fun dec_digits :: "nat \<Rightarrow> string" where
  "dec_digits n =
     (if n < 10 then [digit_char n] else dec_digits (n div 10) @ [digit_char (n mod 10)])"

declare dec_digits.simps [simp del]

definition pad_left :: "nat \<Rightarrow> string \<Rightarrow> string" where
  "pad_left w s = replicate (w - length s) CHR '' '' @ s"

fun frac_digits :: "nat \<Rightarrow> nat \<Rightarrow> string" where
  "frac_digits 0 m = []"
| "frac_digits (Suc p) m = frac_digits p (m div 10) @ [digit_char (m mod 10)]"

definition fixed_digits :: "nat \<Rightarrow> real \<Rightarrow> string" where
  "fixed_digits p x =
     (let m = nat (round_half_even (\<bar>x\<bar> * 10 ^ p))
      in (if x < 0 then ''-'' else '''') @ dec_digits (m div 10 ^ p)
         @ (if p = 0 then '''' else ''.'' @ frac_digits p (m mod 10 ^ p)))"

definition fmt_u :: "nat \<Rightarrow> 32 word \<Rightarrow> string" where
  "fmt_u w n = pad_left w (dec_digits (unat n))"

definition fmt_f :: "nat \<Rightarrow> nat \<Rightarrow> real \<Rightarrow> string" where
  "fmt_f w p x = pad_left w (fixed_digits p x)"

definition dtostrf :: "real \<Rightarrow> nat \<Rightarrow> nat \<Rightarrow> string" where
  "dtostrf x w p = fmt_f w p x"

subsection \<open>Helpers\<close>

definition ms_since :: "32 word \<Rightarrow> 32 word \<Rightarrow> 32 word" where
  "ms_since now start = now - start"

definition echo :: "bool \<Rightarrow> string \<Rightarrow> event list" where
  "echo serial msg = (if serial then [SerialPrint msg] else [])"

text \<open>C's \<^verbatim>\<open>/\<close> on \<^verbatim>\<open>int\<close> truncates towards zero.\<close>

definition c_div :: "int \<Rightarrow> int \<Rightarrow> int" where
  "c_div a b = sgn a * sgn b * (\<bar>a\<bar> div \<bar>b\<bar>)"

subsection \<open>Acquisition\<close>

text \<open>
  \<^verbatim>\<open>measureVoltage\<close>: eight \<^verbatim>\<open>analogRead\<close> calls summed in a \<^verbatim>\<open>uint32_t\<close>, each followed by a
  busy wait on \<^verbatim>\<open>micros()\<close> (50 microseconds; it reads no program state and writes none, so
  it is left out), then the conversion in \<^verbatim>\<open>float\<close>: the two casts, the division by the
  number of samples, the division by \<^verbatim>\<open>ADC_MAX_CODE\<close> and the product with the reference
  (\<^verbatim>\<open>1.1f\<close> or \<^verbatim>\<open>3.3f\<close>) each round. \<open>readings\<close> are the codes the eight calls return.
\<close>

definition N_SAMPLES :: nat where
  "N_SAMPLES = 8"

definition readings :: "(nat \<Rightarrow> 16 word) \<Rightarrow> 16 word list" where
  "readings rd = map rd [0..<N_SAMPLES]"

definition sum_codes :: "16 word list \<Rightarrow> 32 word" where
  "sum_codes cs = fold (\<lambda>c s. s + ucast c) cs 0"

definition scale_ref :: "bool \<Rightarrow> real" where
  "scale_ref hv = (if hv then f32 (11 / 10) else f32 (33 / 10))"

definition measureVoltage :: "bool \<Rightarrow> (nat \<Rightarrow> 16 word) \<Rightarrow> real \<times> event list" where
  "measureVoltage hv rd =
     (let cs = readings rd;
          avg_code = f32 (f32 (real (unat (sum_codes cs))) / f32 (real N_SAMPLES))
      in (f32 (f32 (avg_code / ADC_MAX_CODE) * scale_ref hv), map AnalogRead cs))"

subsection \<open>Drawing\<close>

text \<open>
  The segment loop of \<^verbatim>\<open>drawBarGraph\<close>:
  \<^verbatim>\<open>for (int x = BAR_X_START; x < BAR_X_END; x += 5)\<close>.
\<close>

function bar_segments :: "int \<Rightarrow> int \<Rightarrow> color \<Rightarrow> event list" where
  "bar_segments x active_px color =
     (if x < BAR_X_END
      then FillRect x BAR_Y 4 BAR_H (if x - BAR_X_START < active_px then color else 0x2102)
           # bar_segments (x + 5) active_px color
      else [])"
  by pat_completeness auto
termination
  by (relation "measure (\<lambda>(x, a, c). nat (BAR_X_END - x))") auto

declare bar_segments.simps [simp del]

text \<open>
  \<^verbatim>\<open>drawBarGraph\<close>: the quotient and the product are \<^verbatim>\<open>float\<close> operations; the cast to \<^verbatim>\<open>int\<close>
  truncates a number that is not negative.
\<close>

definition drawBarGraph :: "bool \<Rightarrow> real \<Rightarrow> color \<Rightarrow> event list" where
  "drawBarGraph hv val color =
     (let fs_limit = (if hv then FS_KV_MODE else FS_V_MODE);
          percent0 = f32 (val / fs_limit);
          percent1 = (if 1 < percent0 then 1 else percent0);
          percent = (if percent1 < 0 then 0 else percent1);
          active_px = \<lfloor>f32 (percent * 220)\<rfloor>
      in bar_segments BAR_X_START active_px color)"

text \<open>The number \<^verbatim>\<open>updateMainUI\<close> formats: \<^verbatim>\<open>use_hv_mode ? (val * 10.0f) : val\<close>.\<close>

definition displayVal :: "bool \<Rightarrow> real \<Rightarrow> real" where
  "displayVal hv val = (if hv then f32 (val * 10) else val)"

definition unit_label :: "bool \<Rightarrow> string" where
  "unit_label hv = (if hv then ''kV'' else ''V'')"

definition updateMainUI :: "platform \<Rightarrow> bool \<Rightarrow> real \<Rightarrow> event list" where
  "updateMainUI pf hv val =
     (let activeColor = (if hv then primary Theme else secondary Theme);
          sbuf = dtostrf (displayVal hv val) 5 2;
          valWidth = getUTF8Width pf u8g2_font_inb27_mn sbuf;
          xVal = c_div (240 - valWidth - 45) 2;
          unitX = xVal + valWidth + 6
      in [SetFont u8g2_font_inb27_mn, SetForegroundColor activeColor,
          SetBackgroundColor (bg Theme), SetCursor xVal 100, Print sbuf,
          FillRect unitX 70 45 35 (bg Theme),
          SetFont u8g2_font_9x15_tr, SetForegroundColor activeColor,
          SetBackgroundColor (bg Theme), SetCursor unitX 100, Print (unit_label hv)]
         @ (if hv
            then [SetFont u8g2_font_9x15_tr, SetForegroundColor TAN_PALLADIAN,
                  SetBackgroundColor (bg Theme), SetCursor BAR_X_START 20,
                  Print (fmt_f 0 3 val @ ''V'')]
            else [FillRect BAR_X_START 5 100 20 (bg Theme)])
         @ drawBarGraph hv val activeColor)"

definition drawStaticUI :: "platform \<Rightarrow> event list" where
  "drawStaticUI pf =
     [DrawFastHLine BAR_X_START AXIS_Y 220 (accent Theme)]
     @ map (\<lambda>i. DrawFastVLine (BAR_X_START + int i * 22) AXIS_Y TICK_H (accent Theme)) [0..<11]
     @ [SetFont u8g2_font_9x15_tr, SetForegroundColor (footer Theme),
        SetBackgroundColor (bg Theme), SetCursor 2 133, Print (display_filename_str pf),
        SetCursor (240 - getUTF8Width pf u8g2_font_9x15_tr VERSION_STR - 2) 133,
        Print VERSION_STR]"

subsection \<open>Reporting\<close>

definition report_line :: "32 word \<Rightarrow> real \<Rightarrow> string" where
  "report_line now v = fmt_u 7 now @ '', '' @ fmt_f 6 4 v @ [CHR 0x0A]"

definition printVolts :: "inputs \<Rightarrow> state \<Rightarrow> event list" where
  "printVolts inp st = echo (serial_up inp) (report_line (millis inp) (filtered_V st))"

subsection \<open>Range evaluation and rendering\<close>

definition atten_of :: "bool \<Rightarrow> adc_attenuation" where
  "atten_of hv = (if hv then ADC_0db else ADC_11db)"

text \<open>
  \<^verbatim>\<open>dispVolts\<close>: the two \<^verbatim>\<open>if\<close> statements of the source, one after the other. The second
  reads the state the first has left; its test is
  \<^verbatim>\<open>fabs(filtered_V - last_disp_V) >= REDRAW_THRESHOLD\<close>, on the \<^verbatim>\<open>float\<close> difference.
\<close>

definition dispVolts :: "platform \<Rightarrow> inputs \<Rightarrow> state \<Rightarrow> state \<times> event list" where
  "dispVolts pf inp st =
     (let hv = (\<not> mode_pin inp);
          st1 = st\<lparr>use_hv_mode := hv\<rparr>;
          ev1 = [DigitalRead_MODE (mode_pin inp)];
          (st2, ev2) =
            (if use_hv_mode st1 \<noteq> last_hv_mode st1
             then (st1\<lparr>hw_atten := atten_of (use_hv_mode st1),
                       last_hv_mode := use_hv_mode st1\<rparr>,
                   [AnalogSetAttenuation (atten_of (use_hv_mode st1)), FillScreen (bg Theme)]
                   @ drawStaticUI pf
                   @ updateMainUI pf (use_hv_mode st1) (filtered_V st1))
             else (st1, []));
          (st3, ev3) =
            (if REDRAW_THRESHOLD \<le> \<bar>f32 (filtered_V st2 - last_disp_V st2)\<bar>
             then (st2\<lparr>last_disp_V := filtered_V st2\<rparr>,
                   updateMainUI pf (use_hv_mode st2) (filtered_V st2))
             else (st2, []))
      in (st3, ev1 @ ev2 @ ev3))"

subsection \<open>Start-up\<close>

text \<open>
  The state when \<^verbatim>\<open>setup()\<close> is entered: the globals as their initialisers leave them, the
  hardware in whatever configuration \<open>a\<close>, \<open>l\<close> the board powers up with.
\<close>

definition boot :: "adc_attenuation \<Rightarrow> bool \<Rightarrow> state" where
  "boot a l = \<lparr> filtered_V = 0, last_disp_V = - 99, use_hv_mode = False, last_hv_mode = False,
               t_meas = 0, t_disp = 0, t_ser = 0, t_hb = 0, hw_atten = a, led = l \<rparr>"

text \<open>
  \<^verbatim>\<open>initHardware\<close> sets the pin modes, the 16-bit read resolution and the attenuation, and
  blanks the NeoPixel; of these the attenuation is state of the model.
\<close>

definition initHardware :: "state \<Rightarrow> state \<times> event list" where
  "initHardware st = (st\<lparr>hw_atten := ADC_11db\<rparr>, [AnalogSetAttenuation ADC_11db])"

text \<open>
  \<^verbatim>\<open>initDisplay\<close> powers the panel, switches the backlight on, initialises and rotates the
  display and clears it; the clearing is the one call that draws.
\<close>

definition initDisplay :: "event list" where
  "initDisplay = [FillScreen (bg Theme)]"

definition banner :: "platform \<Rightarrow> string list" where
  "banner pf =
     [CHR 0x0A # ''# ------------------------------------------------'' @ [CHR 0x0A],
      ''# FILE:    '' @ display_filename_str pf @ [CHR 0x0A],
      ''# VER:     '' @ VERSION_STR @ [CHR 0x0A],
      ''# MODE PIN: 8 (Silkscreen A5)'' @ [CHR 0x0A],
      ''# COLUMNS: ms, volts_filtered'' @ [CHR 0x0A],
      ''# ------------------------------------------------'' @ [CHR 0x0A]]"

text \<open>
  \<^verbatim>\<open>initSerial\<close> waits up to 2.5 s for the port, blinking the LED from the clock, then
  switches the LED off and prints the banner. The blinking is left out; the LED ends low.
\<close>

definition initSerial :: "platform \<Rightarrow> bool \<Rightarrow> state \<Rightarrow> state \<times> event list" where
  "initSerial pf serial st =
     (st\<lparr>led := False\<rparr>, DigitalWrite_LED False # concat (map (echo serial) (banner pf)))"

text \<open>\<^verbatim>\<open>setup()\<close> of the sketch (the bare name is a keyword of Isabelle).\<close>

definition setup_sketch :: "platform \<Rightarrow> bool \<Rightarrow> state \<Rightarrow> state \<times> event list" where
  "setup_sketch pf serial st =
     (let (st1, ev1) = initHardware st;
          ev2 = initDisplay;
          ev3 = drawStaticUI pf;
          (st4, ev4) = initSerial pf serial st1
      in (st4, ev1 @ ev2 @ ev3 @ ev4))"

subsection \<open>The main loop\<close>

text \<open>
  The filter update of \<^verbatim>\<open>loop()\<close>, line 238:
  \<^verbatim>\<open>(ALPHA * measureVoltage()) + (1.0f - ALPHA) * filtered_V\<close>, two products, a difference and
  a sum in \<^verbatim>\<open>float\<close>, each rounded. (A compiler that fuses one of the products into the sum
  computes the same value on normal numbers, where halving is exact.)
\<close>

definition ema :: "real \<Rightarrow> real \<Rightarrow> real" where
  "ema sample prev = f32 (f32 (ALPHA * sample) + f32 (f32 (1 - ALPHA) * prev))"

definition meas_due :: "32 word \<Rightarrow> state \<Rightarrow> bool" where
  "meas_due now st = (MEAS_INTERVAL_MS \<le> ms_since now (t_meas st))"

definition ser_due :: "32 word \<Rightarrow> state \<Rightarrow> bool" where
  "ser_due now st = (SER_INTERVAL_MS \<le> ms_since now (t_ser st))"

definition disp_due :: "32 word \<Rightarrow> state \<Rightarrow> bool" where
  "disp_due now st = (DISP_INTERVAL_MS \<le> ms_since now (t_disp st))"

definition hb_due :: "32 word \<Rightarrow> state \<Rightarrow> bool" where
  "hb_due now st = (HB_PERIOD_MS \<le> ms_since now (t_hb st))"

text \<open>The five \<^verbatim>\<open>if\<close> statements of \<^verbatim>\<open>loop()\<close>, in the order of the source.\<close>

definition loop_meas :: "inputs \<Rightarrow> state \<Rightarrow> state \<times> event list" where
  "loop_meas inp st =
     (if meas_due (millis inp) st
      then (let (v, ev) = measureVoltage (use_hv_mode st) (adc inp)
            in (st\<lparr>t_meas := millis inp, filtered_V := ema v (filtered_V st)\<rparr>, ev))
      else (st, []))"

definition loop_ser :: "inputs \<Rightarrow> state \<Rightarrow> state \<times> event list" where
  "loop_ser inp st =
     (if ser_due (millis inp) st
      then (st\<lparr>t_ser := millis inp\<rparr>, printVolts inp (st\<lparr>t_ser := millis inp\<rparr>))
      else (st, []))"

definition loop_disp :: "platform \<Rightarrow> inputs \<Rightarrow> state \<Rightarrow> state \<times> event list" where
  "loop_disp pf inp st =
     (if disp_due (millis inp) st
      then dispVolts pf inp (st\<lparr>t_disp := millis inp\<rparr>)
      else (st, []))"

definition loop_hb :: "inputs \<Rightarrow> state \<Rightarrow> state \<times> event list" where
  "loop_hb inp st =
     (let (st1, ev1) =
            (if hb_due (millis inp) st
             then (st\<lparr>t_hb := millis inp, led := True\<rparr>, [DigitalWrite_LED True])
             else (st, []));
          (st2, ev2) =
            (if led st1 \<and> HB_ON_MS \<le> ms_since (millis inp) (t_hb st1)
             then (st1\<lparr>led := False\<rparr>, [DigitalWrite_LED False])
             else (st1, []))
      in (st2, ev1 @ ev2))"

definition loop :: "platform \<Rightarrow> inputs \<Rightarrow> state \<Rightarrow> state \<times> event list" where
  "loop pf inp st =
     (let (st1, ev1) = loop_meas inp st;
          (st2, ev2) = loop_ser inp st1;
          (st3, ev3) = loop_disp pf inp st2;
          (st4, ev4) = loop_hb inp st3
      in (st4, ev1 @ ev2 @ ev3 @ ev4))"

text \<open>The program after \<^verbatim>\<open>setup()\<close>: one pass of \<^verbatim>\<open>loop()\<close> per element of the input list.\<close>

fun run :: "platform \<Rightarrow> inputs list \<Rightarrow> state \<Rightarrow> state" where
  "run pf [] st = st"
| "run pf (inp # inps) st = run pf inps (fst (loop pf inp st))"

text \<open>The state in which the first pass of \<^verbatim>\<open>loop()\<close> starts.\<close>

definition start_state :: "platform \<Rightarrow> bool \<Rightarrow> adc_attenuation \<Rightarrow> bool \<Rightarrow> state" where
  "start_state pf up a l = fst (setup_sketch pf up (boot a l))"

text \<open>
  The invariant behind the range switch: the attenuation configured in the ADC is the one
  of the range in \<^verbatim>\<open>use_hv_mode\<close>, and \<^verbatim>\<open>last_hv_mode\<close> has caught up with it.
\<close>

definition gain_matches :: "state \<Rightarrow> bool" where
  "gain_matches st = (hw_atten st = atten_of (use_hv_mode st) \<and> last_hv_mode st = use_hv_mode st)"

text \<open>The filter fed a sequence of samples, one update per sample.\<close>

definition ema_run :: "real list \<Rightarrow> real \<Rightarrow> real" where
  "ema_run samples f0 = fold ema samples f0"

subsection \<open>A simulated run on a 1 ms tick\<close>




subsection \<open>Concrete inputs for the examples\<close>

definition demo_platform :: platform where
  "demo_platform = \<lparr> getUTF8Width = (\<lambda>f s. (case f of u8g2_font_inb27_mn \<Rightarrow> 22 | u8g2_font_9x15_tr \<Rightarrow> 9) * int (length s)),
                      display_filename_str = ''Voltmeter_esp_tft.ino'' \<rparr>"

definition demo_state :: "real \<Rightarrow> real \<Rightarrow> bool \<Rightarrow> state" where
  "demo_state f l hv = \<lparr> filtered_V = f, last_disp_V = l, use_hv_mode = hv, last_hv_mode = hv,
                        t_meas = 0, t_disp = 0, t_ser = 0, t_hb = 0,
                        hw_atten = atten_of hv, led = False \<rparr>"

definition demo_inputs :: "32 word \<Rightarrow> 16 word \<Rightarrow> bool \<Rightarrow> inputs" where
  "demo_inputs now code pin = \<lparr> millis = now, adc = (\<lambda>k. code), mode_pin = pin, serial_up = True \<rparr>"

section \<open>Properties\<close>

subsection \<open>Binary32 rounding\<close>

lemma quantum_from_eq:
  "m \<le> n \<Longrightarrow> 0 < q \<Longrightarrow> (m = 0 \<or> q * 2 ^ m * 2 ^ 23 \<le> a) \<Longrightarrow> a < q * 2 ^ m * 2 ^ 24
   \<Longrightarrow> quantum_from n q a = q * 2 ^ m"
proof (induction m arbitrary: q n)
  case 0
  then show ?case by (cases n) simp_all
next
  case (Suc m)
  then obtain n' where n: "n = Suc n'" "m \<le> n'" by (cases n) auto
  have big: "q * 2 ^ Suc m * 2 ^ 23 \<le> a" using Suc.prems(3) by simp
  have "q * 2 ^ 24 \<le> q * 2 ^ Suc m * 2 ^ 23"
    using Suc.prems(2) by (simp add: mult_le_cancel_left_pos) 
  then have no: "\<not> a < q * 2 ^ 24" using big by linarith
  have "quantum_from n' (2 * q) a = (2 * q) * 2 ^ m"
  proof (rule Suc.IH [OF n(2)])
    show "0 < 2 * q" using Suc.prems(2) by simp
    show "m = 0 \<or> 2 * q * 2 ^ m * 2 ^ 23 \<le> a" using big by (simp add: mult.assoc mult.left_commute)
    show "a < 2 * q * 2 ^ m * 2 ^ 24" using Suc.prems(4) by (simp add: mult.assoc mult.left_commute)
  qed
  then show ?case using no n(1) by simp
qed

lemma quantum_from_cases:
  "0 < q \<Longrightarrow> \<exists>m\<le>n. quantum_from n q a = q * 2 ^ m
       \<and> (m = 0 \<or> q * 2 ^ m * 2 ^ 23 \<le> a) \<and> (a < q * 2 ^ m * 2 ^ 24 \<or> m = n)"
proof (induction n arbitrary: q)
  case 0
  show ?case by simp
next
  case (Suc n)
  show ?case
  proof (cases "a < q * 2 ^ 24")
    case True
    then show ?thesis by (intro exI [of _ 0]) simp
  next
    case False
    from Suc.IH [of "2 * q"] Suc.prems obtain m where m: "m \<le> n"
      "quantum_from n (2 * q) a = 2 * q * 2 ^ m"
      "m = 0 \<or> 2 * q * 2 ^ m * 2 ^ 23 \<le> a" "a < 2 * q * 2 ^ m * 2 ^ 24 \<or> m = n"
      by auto
    have "q * 2 ^ Suc m * 2 ^ 23 \<le> a"
    proof (cases "m = 0")
      case True
      then show ?thesis using False by simp
    next
      case False
      then show ?thesis using m(3) by (simp add: mult.assoc mult.left_commute)
    qed
    then show ?thesis
      using False m by (intro exI [of _ "Suc m"]) (auto simp: mult.assoc mult.left_commute)
  qed
qed

lemma quantum_cases:
  "\<exists>k\<le>253. quantum a = 2 ^ k / 2 ^ 149
       \<and> (k = 0 \<or> 2 ^ k / 2 ^ 149 * 2 ^ 23 \<le> a) \<and> (a < 2 ^ k / 2 ^ 149 * 2 ^ 24 \<or> k = 253)"
  using quantum_from_cases [of "1 / 2 ^ 149" 253 a] by (simp add: quantum_def)

lemma quantum_eq:
  "k \<le> 253 \<Longrightarrow> (k = 0 \<or> 2 ^ k / 2 ^ 149 * 2 ^ 23 \<le> a) \<Longrightarrow> a < 2 ^ k / 2 ^ 149 * 2 ^ 24
   \<Longrightarrow> quantum a = 2 ^ k / 2 ^ 149"
  using quantum_from_eq [of k 253 "1 / 2 ^ 149" a] by (simp add: quantum_def)

lemma quantum_pos: "0 < quantum a"
  using quantum_cases [of a] by auto

lemma round_half_even_int: "round_half_even (of_int n) = n"
  by (simp add: round_half_even_def)

lemma rhe_bounds: "of_int (round_half_even x) \<le> x + 1 / 2" "x - 1 / 2 \<le> of_int (round_half_even x)"
  unfolding round_half_even_def Let_def by (auto simp: not_less) linarith+

lemma rhe_err: "\<bar>of_int (round_half_even x) - x\<bar> \<le> 1 / 2"
  using rhe_bounds [of x] by linarith

lemma rhe_floor: "\<lfloor>x\<rfloor> \<le> round_half_even x" "round_half_even x \<le> \<lfloor>x\<rfloor> + 1"
  unfolding round_half_even_def Let_def by auto

lemma rhe_mono: "x \<le> y \<Longrightarrow> round_half_even x \<le> round_half_even y"
proof -
  assume xy: "x \<le> y"
  have fl: "\<lfloor>x\<rfloor> \<le> \<lfloor>y\<rfloor>" using xy by (rule floor_mono)
  show ?thesis
  proof (cases "\<lfloor>x\<rfloor> = \<lfloor>y\<rfloor>")
    case True
    then have "x - of_int \<lfloor>x\<rfloor> \<le> y - of_int \<lfloor>y\<rfloor>" using xy by simp
    then show ?thesis
      unfolding round_half_even_def Let_def using True by auto
  next
    case False
    then have "\<lfloor>x\<rfloor> + 1 \<le> \<lfloor>y\<rfloor>" using fl by linarith
    then show ?thesis using rhe_floor(2) [of x] rhe_floor(1) [of y] by linarith
  qed
qed

lemma rhe_le_int: "x \<le> of_int n \<Longrightarrow> round_half_even x \<le> n"
  using rhe_mono [of x "of_int n"] by (simp add: round_half_even_int)

lemma rhe_ge_int: "of_int n \<le> x \<Longrightarrow> n \<le> round_half_even x"
  using rhe_mono [of "of_int n" x] by (simp add: round_half_even_int)

lemma f32_zero: "f32 0 = 0"
  by (simp add: f32_def round_half_even_int [of 0, simplified])

lemma f32_err: "\<bar>f32 x - x\<bar> \<le> quantum \<bar>x\<bar> / 2"
proof -
  let ?q = "quantum \<bar>x\<bar>"
  have q: "0 < ?q" by (rule quantum_pos)
  have "\<bar>of_int (round_half_even (x / ?q)) - x / ?q\<bar> * ?q \<le> 1 / 2 * ?q"
    using rhe_err [of "x / ?q"] q by (intro mult_right_mono) simp_all
  moreover have "\<bar>of_int (round_half_even (x / ?q)) - x / ?q\<bar> * ?q = \<bar>f32 x - x\<bar>"
  proof -
    have "\<bar>of_int (round_half_even (x / ?q)) - x / ?q\<bar> * ?q
        = \<bar>(of_int (round_half_even (x / ?q)) - x / ?q) * ?q\<bar>"
      using q by (simp add: abs_mult)
    also have "(of_int (round_half_even (x / ?q)) - x / ?q) * ?q = f32 x - x"
      using q by (simp add: f32_def left_diff_distrib)
    finally show ?thesis .
  qed
  ultimately show ?thesis by simp
qed

lemma quantum_le: "quantum a \<le> max (a / 2 ^ 23) (1 / 2 ^ 149)"
proof -
  obtain k where k: "quantum a = 2 ^ k / 2 ^ 149" "k = 0 \<or> 2 ^ k / 2 ^ 149 * 2 ^ 23 \<le> a"
    using quantum_cases [of a] by blast
  show ?thesis
  proof (cases "k = 0")
    case True
    then show ?thesis using k(1) by simp
  next
    case False
    then have "quantum a * 2 ^ 23 \<le> a" using k by simp
    then have "quantum a \<le> a / 2 ^ 23" by (simp add: pos_le_divide_eq)
    then show ?thesis by simp
  qed
qed

lemma f32_rel_err: "\<bar>f32 x - x\<bar> \<le> \<bar>x\<bar> / 2 ^ 24 + 1 / 2 ^ 150"
proof -
  have "quantum \<bar>x\<bar> \<le> \<bar>x\<bar> / 2 ^ 23 + 1 / 2 ^ 149"
    using quantum_le [of "\<bar>x\<bar>"] by (simp add: max_def split: if_splits) 
  then show ?thesis using f32_err [of x] by simp
qed

lemma f32_nonneg: "0 \<le> x \<Longrightarrow> 0 \<le> f32 x"
proof -
  assume "0 \<le> x"
  then have "0 \<le> x / quantum \<bar>x\<bar>" using quantum_pos [of "\<bar>x\<bar>"] by simp
  then have "0 \<le> round_half_even (x / quantum \<bar>x\<bar>)" using rhe_ge_int [of 0] by simp
  then show ?thesis using quantum_pos [of "\<bar>x\<bar>"] by (simp add: f32_def)
qed

lemma f32_eval:
  assumes "j \<le> 149" "j = 149 \<or> 2 ^ 23 \<le> \<bar>x\<bar> * 2 ^ j" "\<bar>x\<bar> * 2 ^ j < 2 ^ 24"
    and "round_half_even (x * 2 ^ j) = m"
  shows "f32 x = of_int m / 2 ^ j"
proof -
  have e: "(2::real) ^ (149 - j) / 2 ^ 149 = 1 / 2 ^ j"
    using assms(1) by (simp add: power_diff)
  have "quantum \<bar>x\<bar> = 2 ^ (149 - j) / 2 ^ 149"
  proof (rule quantum_eq)
    show "149 - j \<le> 253" by simp
    show "149 - j = 0 \<or> 2 ^ (149 - j) / 2 ^ 149 * 2 ^ 23 \<le> \<bar>x\<bar>"
      using assms(1,2) unfolding e by (auto simp: field_simps)
    show "\<bar>x\<bar> < 2 ^ (149 - j) / 2 ^ 149 * 2 ^ 24"
      using assms(3) unfolding e by (simp add: field_simps)
  qed
  then have "quantum \<bar>x\<bar> = 1 / 2 ^ j" using e by simp
  then show ?thesis using assms(4) by (simp add: f32_def)
qed

lemma f32_integral:
  assumes "x / quantum \<bar>x\<bar> = of_int m"
  shows "f32 x = x"
proof -
  have q: "quantum \<bar>x\<bar> \<noteq> 0" using quantum_pos [of "\<bar>x\<bar>"] by simp
  have "f32 x = of_int (round_half_even (of_int m)) * quantum \<bar>x\<bar>"
    by (simp only: f32_def assms)
  also have "\<dots> = x / quantum \<bar>x\<bar> * quantum \<bar>x\<bar>"
    by (simp only: round_half_even_int assms)
  also have "\<dots> = x" using q by simp
  finally show ?thesis .
qed

lemma pow2_le_D: "(2::real) ^ a \<le> 2 ^ b \<Longrightarrow> a \<le> b"
  by simp

lemma f32_exact_pow:
  assumes m: "\<bar>m\<bar> \<le> 2 ^ 24" and k: "k \<le> 253"
  shows "f32 (of_int m * 2 ^ k / 2 ^ 149) = of_int m * 2 ^ k / 2 ^ 149"
proof -
  let ?x = "of_int m * 2 ^ k / 2 ^ 149 :: real"
  obtain k' where k': "k' \<le> 253" "quantum \<bar>?x\<bar> = 2 ^ k' / 2 ^ 149"
    "k' = 0 \<or> 2 ^ k' / 2 ^ 149 * 2 ^ 23 \<le> \<bar>?x\<bar>"
    using quantum_cases [of "\<bar>?x\<bar>"] by blast
  have ax: "\<bar>?x\<bar> = \<bar>of_int m\<bar> * 2 ^ k / 2 ^ 149" by (simp add: abs_mult)
  show ?thesis
  proof (cases "k' \<le> k")
    case True
    have "?x / quantum \<bar>?x\<bar> = of_int m * 2 ^ (k - k')"
      unfolding k'(2) using True by (simp add: power_diff)
    also have "\<dots> = of_int (m * 2 ^ (k - k'))" by simp
    finally show ?thesis by (rule f32_integral)
  next
    case False
    then have "k' \<noteq> 0" by simp
    then have "2 ^ k' / 2 ^ 149 * 2 ^ 23 \<le> \<bar>of_int m\<bar> * 2 ^ k / (2 ^ 149 :: real)"
      using k'(3) ax by simp
    then have 1: "(2::real) ^ k' * 2 ^ 23 \<le> \<bar>of_int m\<bar> * 2 ^ k"
      by (simp add: field_simps)
    have "\<bar>of_int m :: real\<bar> \<le> 2 ^ 24" using m by (metis of_int_abs of_int_le_iff of_int_numeral of_int_power)
    then have 2: "\<bar>of_int m :: real\<bar> * 2 ^ k \<le> 2 ^ 24 * 2 ^ k"
      by (intro mult_right_mono) simp_all
    from 1 2 have "(2::real) ^ k' * 2 ^ 23 \<le> 2 ^ 24 * 2 ^ k" by (rule order_trans)
    then have "(2::real) ^ (k' + 23) \<le> 2 ^ (24 + k)" by (simp only: power_add)
    then have "k' + 23 \<le> 24 + k" by (rule pow2_le_D)
    with False have k1: "k' = Suc k" by simp
    from 1 have "(2::real) ^ 24 * 2 ^ k \<le> \<bar>of_int m\<bar> * 2 ^ k"
      unfolding k1 by simp
    then have "(2::real) ^ 24 \<le> \<bar>of_int m\<bar>" by simp
    with \<open>\<bar>of_int m :: real\<bar> \<le> 2 ^ 24\<close> have am: "\<bar>of_int m :: real\<bar> = 2 ^ 24" by linarith
    then have "\<bar>m\<bar> = 2 ^ 24" by (metis of_int_abs of_int_eq_iff of_int_numeral of_int_power)
    then have "even m" by (metis even_abs_add_iff even_add even_numeral even_power zero_less_numeral)
    then have "m = 2 * (m div 2)" by simp
    then have "(of_int m :: real) = 2 * of_int (m div 2)" by (metis of_int_mult of_int_numeral)
    then have "?x / quantum \<bar>?x\<bar> = of_int (m div 2)"
      unfolding k'(2) k1 by simp
    then show ?thesis by (rule f32_integral)
  qed
qed

lemma f32_exact:
  assumes "\<bar>m\<bar> \<le> 2 ^ 24" "j \<le> 149"
  shows "f32 (of_int m / 2 ^ j) = of_int m / 2 ^ j"
proof -
  have "(of_int m :: real) * 2 ^ (149 - j) / 2 ^ 149 = of_int m / 2 ^ j"
    using assms(2) by (simp add: power_diff)
  then show ?thesis using f32_exact_pow [OF assms(1), of "149 - j"] by simp
qed

lemma f32_idem: "f32 (f32 x) = f32 x"
proof -
  obtain k where k: "k \<le> 253" "quantum \<bar>x\<bar> = 2 ^ k / 2 ^ 149"
    "\<bar>x\<bar> < 2 ^ k / 2 ^ 149 * 2 ^ 24 \<or> k = 253"
    using quantum_cases [of "\<bar>x\<bar>"] by blast
  define t where "t = x / quantum \<bar>x\<bar>"
  define m where "m = round_half_even t"
  have qp: "0 < quantum \<bar>x\<bar>" by (rule quantum_pos)
  have at: "\<bar>t\<bar> = \<bar>x\<bar> / quantum \<bar>x\<bar>" using qp by (simp add: t_def abs_divide)
  have y: "f32 x = of_int m * 2 ^ k / 2 ^ 149" by (simp add: f32_def k(2) t_def m_def)
  show ?thesis
  proof (cases "\<bar>x\<bar> < 2 ^ k / 2 ^ 149 * 2 ^ 24")
    case True
    then have "\<bar>x\<bar> < 2 ^ 24 * quantum \<bar>x\<bar>" unfolding k(2) by (simp add: mult.commute)
    then have "\<bar>x\<bar> / quantum \<bar>x\<bar> < 2 ^ 24" using qp by (simp add: pos_divide_less_eq)
    then have tb: "\<bar>t\<bar> < 2 ^ 24" using at by (simp only:)
    have "t \<le> of_int (2 ^ 24)" "of_int (- (2 ^ 24)) \<le> t"
      using tb by (simp_all add: abs_less_iff)
    then have "m \<le> 2 ^ 24" "- (2 ^ 24) \<le> m"
      unfolding m_def using rhe_le_int rhe_ge_int by blast+
    then have "\<bar>m\<bar> \<le> 2 ^ 24" by linarith
    from f32_exact_pow [OF this k(1)] show ?thesis by (simp only: y)
  next
    case False
    then have k253: "k = 253" using k(3) by simp
    have "2 ^ 24 * quantum \<bar>x\<bar> \<le> \<bar>x\<bar>" using False unfolding k(2) by (simp add: mult.commute)
    then have "2 ^ 24 \<le> \<bar>x\<bar> / quantum \<bar>x\<bar>" using qp by (simp add: pos_le_divide_eq)
    then have tb: "2 ^ 24 \<le> \<bar>t\<bar>" using at by (simp only:)
    have "(2 ^ 24 :: real) \<le> \<bar>of_int m\<bar>"
    proof (cases "0 \<le> t")
      case True
      then have "of_int (2 ^ 24) \<le> t" using tb by simp
      then have "2 ^ 24 \<le> m" unfolding m_def by (rule rhe_ge_int)
      then have "(of_int (2 ^ 24) :: real) \<le> of_int m" by (simp only: of_int_le_iff)
      then show ?thesis by simp
    next
      case False
      then have "t \<le> of_int (- (2 ^ 24))" using tb by simp
      then have "m \<le> - (2 ^ 24)" unfolding m_def by (rule rhe_le_int)
      then have "(of_int m :: real) \<le> of_int (- (2 ^ 24))" by (simp only: of_int_le_iff)
      then show ?thesis by simp
    qed
    then have big: "2 ^ 24 * (2 ^ 253 / 2 ^ 149) \<le> \<bar>f32 x\<bar>"
      unfolding y k253 by (simp add: abs_mult)
    obtain k' where k': "k' \<le> 253" "quantum \<bar>f32 x\<bar> = 2 ^ k' / 2 ^ 149"
      "\<bar>f32 x\<bar> < 2 ^ k' / 2 ^ 149 * 2 ^ 24 \<or> k' = 253"
      using quantum_cases [of "\<bar>f32 x\<bar>"] by blast
    have "k' = 253"
    proof (rule ccontr)
      assume n: "k' \<noteq> 253"
      then have "\<bar>f32 x\<bar> < 2 ^ k' / 2 ^ 149 * 2 ^ 24" using k'(3) by simp
      moreover have "(2::real) ^ k' \<le> 2 ^ 253" using k'(1) by (intro power_increasing) simp_all
      then have "(2::real) ^ k' / 2 ^ 149 * 2 ^ 24 \<le> 2 ^ 253 / 2 ^ 149 * 2 ^ 24"
        by (intro mult_right_mono divide_right_mono) simp_all
      ultimately show False using big by (simp add: mult.commute)
    qed
    then have "f32 x / quantum \<bar>f32 x\<bar> = of_int m"
      unfolding k'(2) unfolding y k253 by simp
    then show ?thesis by (rule f32_integral)
  qed
qed

lemma quantum_from_ge: "0 < q \<Longrightarrow> q \<le> quantum_from n q a"
proof (induction n arbitrary: q)
  case 0
  show ?case by simp
next
  case (Suc n)
  from Suc.IH [of "2 * q"] Suc.prems show ?case by (simp add: order_trans [of q "2 * q"])
qed

lemma quantum_from_mono: "0 < q \<Longrightarrow> a \<le> b \<Longrightarrow> quantum_from n q a \<le> quantum_from n q b"
proof (induction n arbitrary: q)
  case 0
  show ?case by simp
next
  case (Suc n)
  show ?case
  proof (cases "b < q * 2 ^ 24")
    case True
    then show ?thesis using Suc.prems by simp
  next
    case False
    show ?thesis
    proof (cases "a < q * 2 ^ 24")
      case True
      have "q \<le> 2 * q" using Suc.prems(1) by simp
      also have "\<dots> \<le> quantum_from n (2 * q) b" using Suc.prems(1) by (intro quantum_from_ge) simp
      finally show ?thesis using True False by simp
    next
      case F2: False
      then show ?thesis using False Suc.IH [of "2 * q"] Suc.prems by simp
    qed
  qed
qed

lemma quantum_mono: "a \<le> b \<Longrightarrow> quantum a \<le> quantum b"
  unfolding quantum_def by (rule quantum_from_mono) simp_all

lemma f32_mono:
  assumes "0 \<le> x" "x \<le> y"
  shows "f32 x \<le> f32 y"
proof -
  obtain kx where kx: "kx \<le> 253" "quantum \<bar>x\<bar> = 2 ^ kx / 2 ^ 149"
    "\<bar>x\<bar> < 2 ^ kx / 2 ^ 149 * 2 ^ 24 \<or> kx = 253"
    using quantum_cases [of "\<bar>x\<bar>"] by blast
  obtain ky where ky: "ky \<le> 253" "quantum \<bar>y\<bar> = 2 ^ ky / 2 ^ 149"
    "ky = 0 \<or> 2 ^ ky / 2 ^ 149 * 2 ^ 23 \<le> \<bar>y\<bar>"
    using quantum_cases [of "\<bar>y\<bar>"] by blast
  have "quantum \<bar>x\<bar> \<le> quantum \<bar>y\<bar>" using assms by (intro quantum_mono) simp
  then have "(2::real) ^ kx \<le> 2 ^ ky" unfolding kx(2) ky(2) by (simp add: divide_le_cancel)
  then have le: "kx \<le> ky" by (rule pow2_le_D)
  show ?thesis
  proof (cases "kx = ky")
    case True
    then have q: "quantum \<bar>x\<bar> = quantum \<bar>y\<bar>" using kx(2) ky(2) by simp
    have "x / quantum \<bar>y\<bar> \<le> y / quantum \<bar>y\<bar>"
      using assms(2) quantum_pos [of "\<bar>y\<bar>"] by (simp add: divide_right_mono)
    then have "round_half_even (x / quantum \<bar>y\<bar>) \<le> round_half_even (y / quantum \<bar>y\<bar>)"
      by (rule rhe_mono)
    then show ?thesis
      using quantum_pos [of "\<bar>y\<bar>"] by (simp add: f32_def q mult_right_mono)
  next
    case False
    with le have lt: "Suc kx \<le> ky" by simp
    then have "kx \<noteq> 253" "ky \<noteq> 0" using ky(1) by simp_all
    let ?qx = "2 ^ kx / 2 ^ 149 :: real" and ?qy = "2 ^ ky / 2 ^ 149 :: real"
    have qxy: "2 * ?qx \<le> ?qy"
    proof -
      have "(2::real) ^ Suc kx \<le> 2 ^ ky" using lt by (intro power_increasing) simp_all
      then show ?thesis by (simp add: divide_right_mono)
    qed
    have x1: "x / ?qx \<le> of_int (2 ^ 24)"
      using kx(3) \<open>kx \<noteq> 253\<close> assms(1) by (simp add: field_simps)
    have y1: "of_int (2 ^ 23) \<le> y / ?qy"
      using ky(3) \<open>ky \<noteq> 0\<close> assms by (simp add: field_simps)
    have "f32 x \<le> 2 ^ 24 * ?qx"
    proof -
      have "round_half_even (x / ?qx) \<le> 2 ^ 24" using x1 by (rule rhe_le_int)
      then have "(of_int (round_half_even (x / ?qx)) :: real) \<le> 2 ^ 24"
        by (metis of_int_le_iff of_int_numeral of_int_power)
      then show ?thesis unfolding f32_def kx(2) by (intro mult_right_mono) simp_all
    qed
    also have "\<dots> \<le> 2 ^ 23 * ?qy" using qxy by simp
    also have "\<dots> \<le> f32 y"
    proof -
      have "2 ^ 23 \<le> round_half_even (y / ?qy)" using y1 by (rule rhe_ge_int)
      then have "(2 ^ 23 :: real) \<le> of_int (round_half_even (y / ?qy))"
        by (metis of_int_le_iff of_int_numeral of_int_power)
      then show ?thesis unfolding f32_def ky(2) by (intro mult_right_mono) simp_all
    qed
    finally show ?thesis .
  qed
qed

lemma f32_half: "f32 (1 / 2) = 1 / 2"
  using f32_exact [of 1 1] by simp

lemma is_f32_0: "is_f32 0"
  by (simp add: is_f32_def f32_zero)

lemma half_exact:
  assumes "is_f32 x" "1 / 2 ^ 125 \<le> x"
  shows "f32 (x / 2) = x / 2"
proof -
  have fx: "f32 x = x" and bx: "\<bar>x\<bar> < 2 ^ 128" using assms(1) by (simp_all add: is_f32_def)
  have xp: "0 < x" using assms(2) by (rule less_le_trans [rotated]) simp
  obtain k where k: "k \<le> 253" "quantum \<bar>x\<bar> = 2 ^ k / 2 ^ 149"
    "k = 0 \<or> 2 ^ k / 2 ^ 149 * 2 ^ 23 \<le> \<bar>x\<bar>"
    "\<bar>x\<bar> < 2 ^ k / 2 ^ 149 * 2 ^ 24 \<or> k = 253"
    using quantum_cases [of "\<bar>x\<bar>"] by blast
  have lt: "x < 2 ^ k / 2 ^ 149 * 2 ^ 24"
  proof (cases "k = 253")
    case True
    have "(2::real) ^ 253 / 2 ^ 149 * 2 ^ 24 = 2 ^ 128" by simp
    then show ?thesis using bx True xp by simp
  next
    case False
    then show ?thesis using k(4) xp by simp
  qed
  have k0: "k \<noteq> 0"
  proof
    assume "k = 0"
    then have "x < 2 ^ 24 / 2 ^ 149" using lt by simp
    also have "\<dots> = 1 / 2 ^ 125" by simp
    finally show False using assms(2) by simp
  qed
  then obtain k1 where k1: "k = Suc k1" by (cases k) simp_all
  have ge: "2 ^ k / 2 ^ 149 * 2 ^ 23 \<le> x" using k(3) k0 xp by simp
  have qh: "quantum \<bar>x / 2\<bar> = 2 ^ k1 / 2 ^ 149"
  proof (rule quantum_eq)
    show "k1 \<le> 253" using k(1) k1 by simp
    show "k1 = 0 \<or> 2 ^ k1 / 2 ^ 149 * 2 ^ 23 \<le> \<bar>x / 2\<bar>"
      using ge xp unfolding k1 by simp
    show "\<bar>x / 2\<bar> < 2 ^ k1 / 2 ^ 149 * 2 ^ 24"
      using lt xp unfolding k1 by simp
  qed
  have "of_int (round_half_even (x / quantum \<bar>x\<bar>)) * quantum \<bar>x\<bar> = x"
    using fx by (simp add: f32_def)
  then have "x / quantum \<bar>x\<bar> = of_int (round_half_even (x / quantum \<bar>x\<bar>))"
    using quantum_pos [of "\<bar>x\<bar>"] by (simp add: field_simps)
  moreover have "x / 2 / quantum \<bar>x / 2\<bar> = x / quantum \<bar>x\<bar>"
    unfolding qh k(2) k1 by simp
  ultimately have "x / 2 / quantum \<bar>x / 2\<bar> = of_int (round_half_even (x / quantum \<bar>x\<bar>))"
    by simp
  then show ?thesis by (rule f32_integral)
qed

lemma quantum_small: "0 \<le> t \<Longrightarrow> t < 1 / 2 ^ 125 \<Longrightarrow> quantum \<bar>t\<bar> = 1 / 2 ^ 149"
  using quantum_eq [of 0 "\<bar>t\<bar>"] by simp

lemma small_err: "0 \<le> t \<Longrightarrow> t < 1 / 2 ^ 125 \<Longrightarrow> \<bar>f32 t - t\<bar> \<le> 1 / 2 ^ 150"
  using f32_err [of t] quantum_small [of t] by simp

lemma small_grid:
  assumes "is_f32 f" "0 \<le> f" "f < 1 / 2 ^ 125"
  shows "f \<le> 1 / 2 ^ 125 - 1 / 2 ^ 149"
proof -
  define m where "m = round_half_even (f / quantum \<bar>f\<bar>)"
  have q: "quantum \<bar>f\<bar> = 1 / 2 ^ 149" using assms(2,3) by (rule quantum_small)
  have f: "f = of_int m / 2 ^ 149"
    using assms(1) by (simp add: is_f32_def f32_def q m_def)
  have "(of_int m :: real) < 2 ^ 24"
  proof -
    have "of_int m / 2 ^ 149 < (2 ^ 24 :: real) / 2 ^ 149" using assms(3) f by simp
    then show ?thesis by (simp add: divide_less_cancel)
  qed
  then have "m < 2 ^ 24" by simp
  then have "m \<le> 2 ^ 24 - 1" by simp
  then have "(of_int m :: real) \<le> of_int (2 ^ 24 - 1)" by (simp only: of_int_le_iff)
  then have "(of_int m :: real) \<le> 2 ^ 24 - 1" by simp
  then have "of_int m / 2 ^ 149 \<le> (2 ^ 24 - 1 :: real) / 2 ^ 149" by (simp add: divide_right_mono)
  then show ?thesis using f by simp
qed

lemma abs_sum4: "\<bar>w + x + y + z\<bar> \<le> \<bar>w\<bar> + \<bar>x\<bar> + \<bar>y\<bar> + \<bar>z :: real\<bar>"
proof -
  have "\<bar>w + x + y + z\<bar> \<le> \<bar>w + x + y\<bar> + \<bar>z\<bar>" by (rule abs_triangle_ineq)
  also have "\<dots> \<le> (\<bar>w + x\<bar> + \<bar>y\<bar>) + \<bar>z\<bar>"
    by (intro add_right_mono abs_triangle_ineq)
  also have "\<dots> \<le> ((\<bar>w\<bar> + \<bar>x\<bar>) + \<bar>y\<bar>) + \<bar>z\<bar>"
    by (intro add_right_mono abs_triangle_ineq)
  finally show ?thesis .
qed

subsection \<open>The constants of the sketch in binary32\<close>

lemma f32_33_10: "f32 (33 / 10) = 13841203 / 2 ^ 22"
  by (rule f32_eval [where j = 22, THEN trans]) (simp_all add: round_half_even_def)

lemma f32_11_10: "f32 (11 / 10) = 9227469 / 2 ^ 23"
  by (rule f32_eval [where j = 23, THEN trans]) (simp_all add: round_half_even_def)

lemma REDRAW_THRESHOLD_eq: "REDRAW_THRESHOLD = 8589935 / 2 ^ 33"
  unfolding REDRAW_THRESHOLD_def
  by (rule f32_eval [where j = 33, THEN trans]) (simp_all add: round_half_even_def)

lemma f32_of_nat: "n \<le> 2 ^ 24 \<Longrightarrow> f32 (real n) = real n"
  using f32_exact [of "int n" 0] by simp

lemma f32_one: "f32 1 = 1"
  using f32_exact [of 1 0] by simp

subsection \<open>Frame lemmas: what each part of the loop leaves alone\<close>

lemma loop_meas_frame:
  "t_meas (fst (loop_meas inp st)) = (if meas_due (millis inp) st then millis inp else t_meas st)"
  "t_ser (fst (loop_meas inp st)) = t_ser st"
  "t_disp (fst (loop_meas inp st)) = t_disp st"
  "t_hb (fst (loop_meas inp st)) = t_hb st"
  "use_hv_mode (fst (loop_meas inp st)) = use_hv_mode st"
  "last_hv_mode (fst (loop_meas inp st)) = last_hv_mode st"
  "hw_atten (fst (loop_meas inp st)) = hw_atten st"
  by (simp_all add: loop_meas_def split_beta)

lemma loop_ser_frame:
  "t_meas (fst (loop_ser inp st)) = t_meas st"
  "t_ser (fst (loop_ser inp st)) = (if ser_due (millis inp) st then millis inp else t_ser st)"
  "t_disp (fst (loop_ser inp st)) = t_disp st"
  "t_hb (fst (loop_ser inp st)) = t_hb st"
  "use_hv_mode (fst (loop_ser inp st)) = use_hv_mode st"
  "last_hv_mode (fst (loop_ser inp st)) = last_hv_mode st"
  "hw_atten (fst (loop_ser inp st)) = hw_atten st"
  "filtered_V (fst (loop_ser inp st)) = filtered_V st"
  by (simp_all add: loop_ser_def)

lemma dispVolts_frame:
  "t_meas (fst (dispVolts pf inp st)) = t_meas st"
  "t_ser (fst (dispVolts pf inp st)) = t_ser st"
  "t_disp (fst (dispVolts pf inp st)) = t_disp st"
  "t_hb (fst (dispVolts pf inp st)) = t_hb st"
  "filtered_V (fst (dispVolts pf inp st)) = filtered_V st"
  by (simp_all add: dispVolts_def Let_def split_beta)

lemma loop_disp_frame:
  "t_meas (fst (loop_disp pf inp st)) = t_meas st"
  "t_ser (fst (loop_disp pf inp st)) = t_ser st"
  "t_disp (fst (loop_disp pf inp st)) = (if disp_due (millis inp) st then millis inp else t_disp st)"
  "t_hb (fst (loop_disp pf inp st)) = t_hb st"
  "filtered_V (fst (loop_disp pf inp st)) = filtered_V st"
  by (simp_all add: loop_disp_def dispVolts_frame)

lemma loop_hb_frame:
  "t_meas (fst (loop_hb inp st)) = t_meas st"
  "t_ser (fst (loop_hb inp st)) = t_ser st"
  "t_disp (fst (loop_hb inp st)) = t_disp st"
  "use_hv_mode (fst (loop_hb inp st)) = use_hv_mode st"
  "last_hv_mode (fst (loop_hb inp st)) = last_hv_mode st"
  "hw_atten (fst (loop_hb inp st)) = hw_atten st"
  "filtered_V (fst (loop_hb inp st)) = filtered_V st"
  by (simp_all add: loop_hb_def Let_def split_beta)

lemma fst_loop:
  "fst (loop pf inp st) =
     fst (loop_hb inp (fst (loop_disp pf inp (fst (loop_ser inp (fst (loop_meas inp st)))))))"
  by (simp add: loop_def split_beta)




subsection \<open>The two branches of the renderer\<close>


lemma dispVolts_unchanged:
  assumes "(\<not> mode_pin inp) = last_hv_mode st"
  shows "dispVolts pf inp st =
    (if REDRAW_THRESHOLD \<le> \<bar>f32 (filtered_V st - last_disp_V st)\<bar>
     then (st\<lparr>use_hv_mode := \<not> mode_pin inp, last_disp_V := filtered_V st\<rparr>,
           DigitalRead_MODE (mode_pin inp) # updateMainUI pf (\<not> mode_pin inp) (filtered_V st))
     else (st\<lparr>use_hv_mode := \<not> mode_pin inp\<rparr>, [DigitalRead_MODE (mode_pin inp)]))"
  using assms by (simp add: dispVolts_def Let_def)

lemma bar_segments_draw: "filter is_draw (bar_segments x a c) = bar_segments x a c"
  by (induction x a c rule: bar_segments.induct) (subst (1 2) bar_segments.simps, simp)

lemma updateMainUI_draw: "filter is_draw (updateMainUI pf hv v) = updateMainUI pf hv v"
  by (simp add: updateMainUI_def Let_def drawBarGraph_def bar_segments_draw)

lemma drawStaticUI_draw: "filter is_draw (drawStaticUI pf) = drawStaticUI pf"
  by (simp add: drawStaticUI_def)

lemma length_bar_segments: "length (bar_segments x a c) = nat ((BAR_X_END - x + 4) div 5)"
proof (induction x a c rule: bar_segments.induct)
  case (1 x a c)
  show ?case
  proof (cases "x < BAR_X_END")
    case True
    have "length (bar_segments x a c) = Suc (length (bar_segments (x + 5) a c))"
      by (subst bar_segments.simps) (simp add: True)
    also have "\<dots> = Suc (nat ((BAR_X_END - (x + 5) + 4) div 5))"
      using 1 [OF True] by simp
    also have "\<dots> = nat ((BAR_X_END - x + 4) div 5)"
      using True by (simp add: BAR_X_END_def)
    finally show ?thesis .
  next
    case False
    have "length (bar_segments x a c) = 0"
      by (subst bar_segments.simps) (simp add: False)
    moreover have "nat ((BAR_X_END - x + 4) div 5) = 0"
      using False by (simp add: BAR_X_END_def)
    ultimately show ?thesis by simp
  qed
qed

lemma length_drawBarGraph: "length (drawBarGraph hv v c) = 44"
  by (simp add: drawBarGraph_def Let_def length_bar_segments BAR_X_START_def BAR_X_END_def)

lemma length_updateMainUI: "length (updateMainUI pf hv v) = (if hv then 60 else 56)"
  by (simp add: updateMainUI_def Let_def length_drawBarGraph)

lemma updateMainUI_bar:
  "drop (if hv then 16 else 12) (updateMainUI pf hv v) =
     drawBarGraph hv v (if hv then primary Theme else secondary Theme)"
  by (simp add: updateMainUI_def Let_def)

lemma updateMainUI_number:
  "updateMainUI pf hv v ! 4 = Print (dtostrf (displayVal hv v) 5 2)"
  by (simp add: updateMainUI_def Let_def)

lemma demo_state_sel:
  "filtered_V (demo_state f l hv) = f" "last_disp_V (demo_state f l hv) = l"
  "use_hv_mode (demo_state f l hv) = hv" "last_hv_mode (demo_state f l hv) = hv"
  "hw_atten (demo_state f l hv) = atten_of hv"
  by (simp_all add: demo_state_def)

lemma demo_inputs_sel:
  "millis (demo_inputs now c pin) = now" "mode_pin (demo_inputs now c pin) = pin"
  "serial_up (demo_inputs now c pin) = True" "adc (demo_inputs now c pin) = (\<lambda>k. c)"
  by (simp_all add: demo_inputs_def)

lemma f32_20005: "f32 (20005 / 10000) = 8390705 / 2 ^ 22"
  by (rule f32_eval [where j = 22, THEN trans]) (simp_all add: round_half_even_def)

lemma f32_20015: "f32 (20015 / 10000) = 8394899 / 2 ^ 22"
  by (rule f32_eval [where j = 22, THEN trans]) (simp_all add: round_half_even_def)

lemma f32_00500: "f32 (500 / 10000) = 13421773 / 2 ^ 28"
  by (rule f32_eval [where j = 28, THEN trans]) (simp_all add: round_half_even_def)

lemma f32_00509: "f32 (509 / 10000) = 13663365 / 2 ^ 28"
  by (rule f32_eval [where j = 28, THEN trans]) (simp_all add: round_half_even_def)

lemma f32_00515: "f32 (515 / 10000) = 13824426 / 2 ^ 28"
  by (rule f32_eval [where j = 28, THEN trans]) (simp_all add: round_half_even_def)

lemma f32_00011: "f32 (11 / 10000) = 9448928 / 2 ^ 33"
  by (rule f32_eval [where j = 33, THEN trans]) (simp_all add: round_half_even_def)

lemma f32_00001: "f32 (1 / 10000) = 13743895 / 2 ^ 37"
  by (rule f32_eval [where j = 37, THEN trans]) (simp_all add: round_half_even_def)

lemma redraw_direct_no: "\<not> REDRAW_THRESHOLD \<le> \<bar>f32 (f32 (20005 / 10000) - 2)\<bar>"
proof -
  have v: "f32 (8390705 / 2 ^ 22 - 2) = 2097 / 2 ^ 22"
    by (rule f32_eval [where j = 34, THEN trans]) (simp_all add: round_half_even_def)
  show ?thesis unfolding REDRAW_THRESHOLD_eq f32_20005 v by simp
qed

lemma redraw_direct_yes: "REDRAW_THRESHOLD \<le> \<bar>f32 (f32 (20015 / 10000) - 2)\<bar>"
proof -
  have v: "f32 (8394899 / 2 ^ 22 - 2) = 6291 / 2 ^ 22"
    by (rule f32_eval [where j = 33, THEN trans]) (simp_all add: round_half_even_def)
  show ?thesis unfolding REDRAW_THRESHOLD_eq f32_20015 v by simp
qed

lemma redraw_kv_yes: "REDRAW_THRESHOLD \<le> \<bar>f32 (f32 (515 / 10000) - f32 (500 / 10000))\<bar>"
proof -
  have v: "f32 (13824426 / 2 ^ 28 - 13421773 / 2 ^ 28) = 402653 / 2 ^ 28"
    by (rule f32_eval [where j = 33, THEN trans]) (simp_all add: round_half_even_def)
  show ?thesis unfolding REDRAW_THRESHOLD_eq f32_00515 f32_00500 v by simp
qed

lemma redraw_kv_no: "\<not> REDRAW_THRESHOLD \<le> \<bar>f32 (f32 (509 / 10000) - f32 (500 / 10000))\<bar>"
proof -
  have v: "f32 (13663365 / 2 ^ 28 - 13421773 / 2 ^ 28) = 241592 / 2 ^ 28"
    by (rule f32_eval [where j = 34, THEN trans]) (simp_all add: round_half_even_def)
  show ?thesis unfolding REDRAW_THRESHOLD_eq f32_00509 f32_00500 v by simp
qed

lemma redraw_rounded_up: "REDRAW_THRESHOLD \<le> \<bar>f32 (f32 (11 / 10000) - f32 (1 / 10000))\<bar>"
proof -
  have v: "f32 (9448928 / 2 ^ 33 - 13743895 / 2 ^ 37) = 8589935 / 2 ^ 33"
    by (rule f32_eval [where j = 33, THEN trans]) (simp_all add: round_half_even_def)
  show ?thesis unfolding REDRAW_THRESHOLD_eq f32_00011 f32_00001 v by simp
qed

lemma displayVal_00500: "displayVal True (f32 (500 / 10000)) = 1 / 2"
proof -
  have v: "f32 (13421773 / 2 ^ 28 * 10) = 1 / 2"
    by (rule f32_eval [where j = 24, THEN trans]) (simp_all add: round_half_even_def)
  show ?thesis unfolding displayVal_def if_True f32_00500 v by (rule refl)
qed

lemma displayVal_00509: "displayVal True (f32 (509 / 10000)) = 8539603 / 2 ^ 24"
proof -
  have v: "f32 (13663365 / 2 ^ 28 * 10) = 8539603 / 2 ^ 24"
    by (rule f32_eval [where j = 24, THEN trans]) (simp_all add: round_half_even_def)
  show ?thesis unfolding displayVal_def if_True f32_00509 v by (rule refl)
qed






lemma no_fill_bar_segments: "FillScreen c0 \<notin> set (bar_segments x a c)"
  by (induction x a c rule: bar_segments.induct) (subst bar_segments.simps, simp)

lemma no_hline_bar_segments: "DrawFastHLine x0 y0 w0 c0 \<notin> set (bar_segments x a c)"
  by (induction x a c rule: bar_segments.induct) (subst bar_segments.simps, simp)

lemma no_vline_bar_segments: "DrawFastVLine x0 y0 h0 c0 \<notin> set (bar_segments x a c)"
  by (induction x a c rule: bar_segments.induct) (subst bar_segments.simps, simp)

text \<open>
  Claim C2, as the code has it. On a pass of \<^verbatim>\<open>dispVolts\<close> in which the range read from the
  mode pin equals \<^verbatim>\<open>last_hv_mode\<close>, the test is on the voltage at the pin, in both ranges:
  the \<^verbatim>\<open>float\<close> difference of \<^verbatim>\<open>filtered_V\<close> and \<^verbatim>\<open>last_disp_V\<close> against \<^verbatim>\<open>REDRAW_THRESHOLD\<close>, the
  binary32 number \<^verbatim>\<open>0.001f\<close>. If the difference is at least the threshold in size, the draw
  calls are exactly those of the value region and \<^verbatim>\<open>last_disp_V\<close> becomes the value;
  otherwise there is no draw call and neither \<^verbatim>\<open>last_disp_V\<close> nor \<^verbatim>\<open>last_hv_mode\<close> changes. The
  only other call is the read of the mode pin. The value region is 56 calls in the direct
  range and 60 in the attenuated one: the number (the fifth call prints the display
  value with two decimals), the unit, the sub-readout and the 44 segments of the bar
  graph; the screen is not cleared and the axis with its ticks is not drawn.
\<close>

theorem dispVolts_same_range_pin_volts:
  assumes "(\<not> mode_pin inp) = last_hv_mode st"
  shows "REDRAW_THRESHOLD = 8589935 / 2 ^ 33
       \<and> snd (dispVolts pf inp st) =
           DigitalRead_MODE (mode_pin inp)
           # (if REDRAW_THRESHOLD \<le> \<bar>f32 (filtered_V st - last_disp_V st)\<bar>
              then updateMainUI pf (last_hv_mode st) (filtered_V st) else [])
       \<and> filter is_draw (snd (dispVolts pf inp st)) =
           (if REDRAW_THRESHOLD \<le> \<bar>f32 (filtered_V st - last_disp_V st)\<bar>
            then updateMainUI pf (last_hv_mode st) (filtered_V st) else [])
       \<and> last_disp_V (fst (dispVolts pf inp st)) =
           (if REDRAW_THRESHOLD \<le> \<bar>f32 (filtered_V st - last_disp_V st)\<bar>
            then filtered_V st else last_disp_V st)
       \<and> last_hv_mode (fst (dispVolts pf inp st)) = last_hv_mode st
       \<and> length (updateMainUI pf (last_hv_mode st) (filtered_V st)) =
           (if last_hv_mode st then 60 else 56)
       \<and> updateMainUI pf (last_hv_mode st) (filtered_V st) ! 4 =
           Print (dtostrf (displayVal (last_hv_mode st) (filtered_V st)) 5 2)
       \<and> drop (if last_hv_mode st then 16 else 12) (updateMainUI pf (last_hv_mode st) (filtered_V st)) =
           drawBarGraph (last_hv_mode st) (filtered_V st)
             (if last_hv_mode st then primary Theme else secondary Theme)
       \<and> length (drawBarGraph (last_hv_mode st) (filtered_V st)
             (if last_hv_mode st then primary Theme else secondary Theme)) = 44
       \<and> FillScreen c \<notin> set (snd (dispVolts pf inp st))
       \<and> DrawFastHLine x y w c \<notin> set (snd (dispVolts pf inp st))
       \<and> DrawFastVLine x y h c \<notin> set (snd (dispVolts pf inp st))"
proof -
  have fs: "FillScreen c \<notin> set (updateMainUI pf hv v)" for hv v
    by (simp add: updateMainUI_def Let_def drawBarGraph_def no_fill_bar_segments)
  have hl: "DrawFastHLine x y w c \<notin> set (updateMainUI pf hv v)" for hv v
    by (simp add: updateMainUI_def Let_def drawBarGraph_def no_hline_bar_segments)
  have vl: "DrawFastVLine x y h c \<notin> set (updateMainUI pf hv v)" for hv v
    by (simp add: updateMainUI_def Let_def drawBarGraph_def no_vline_bar_segments)
  show ?thesis
    using assms
    by (simp add: dispVolts_unchanged [OF assms] updateMainUI_draw REDRAW_THRESHOLD_eq
        length_updateMainUI updateMainUI_number updateMainUI_bar length_drawBarGraph fs hl vl)
qed

text \<open>
  The theorem at four passes. In the direct range with 2.000 drawn last, \<^verbatim>\<open>2.0005f\<close> draws
  nothing and leaves the state alone, and \<^verbatim>\<open>2.0015f\<close> redraws the value region and is
  recorded. In the attenuated range with \<^verbatim>\<open>0.0500f\<close> drawn last, \<^verbatim>\<open>0.0515f\<close> at the pin redraws
  the value region, 60 calls. With \<^verbatim>\<open>0.0001f\<close> drawn last, \<^verbatim>\<open>0.0011f\<close> redraws although the two
  numbers are less than \<^verbatim>\<open>0.001f\<close> apart: their \<^verbatim>\<open>float\<close> difference rounds up to \<^verbatim>\<open>0.001f\<close>.
\<close>

theorem dispVolts_same_range_pin_volts_witness:
  "(\<not> mode_pin (demo_inputs 250 0 True)) = last_hv_mode (demo_state (f32 (20005 / 10000)) 2 False)
 \<and> snd (dispVolts demo_platform (demo_inputs 250 0 True) (demo_state (f32 (20005 / 10000)) 2 False)) =
       [DigitalRead_MODE True]
 \<and> last_disp_V (fst (dispVolts demo_platform (demo_inputs 250 0 True)
       (demo_state (f32 (20005 / 10000)) 2 False))) = 2
 \<and> (\<not> mode_pin (demo_inputs 250 0 True)) = last_hv_mode (demo_state (f32 (20015 / 10000)) 2 False)
 \<and> filter is_draw (snd (dispVolts demo_platform (demo_inputs 250 0 True)
       (demo_state (f32 (20015 / 10000)) 2 False))) =
     updateMainUI demo_platform False (f32 (20015 / 10000))
 \<and> length (updateMainUI demo_platform False (f32 (20015 / 10000))) = 56
 \<and> last_disp_V (fst (dispVolts demo_platform (demo_inputs 250 0 True)
       (demo_state (f32 (20015 / 10000)) 2 False))) = f32 (20015 / 10000)
 \<and> (\<not> mode_pin (demo_inputs 250 0 False)) =
     last_hv_mode (demo_state (f32 (515 / 10000)) (f32 (500 / 10000)) True)
 \<and> filter is_draw (snd (dispVolts demo_platform (demo_inputs 250 0 False)
       (demo_state (f32 (515 / 10000)) (f32 (500 / 10000)) True))) =
     updateMainUI demo_platform True (f32 (515 / 10000))
 \<and> length (updateMainUI demo_platform True (f32 (515 / 10000))) = 60
 \<and> (\<not> mode_pin (demo_inputs 250 0 True)) =
     last_hv_mode (demo_state (f32 (11 / 10000)) (f32 (1 / 10000)) False)
 \<and> f32 (11 / 10000) - f32 (1 / 10000) < REDRAW_THRESHOLD
 \<and> filter is_draw (snd (dispVolts demo_platform (demo_inputs 250 0 True)
       (demo_state (f32 (11 / 10000)) (f32 (1 / 10000)) False))) =
     updateMainUI demo_platform False (f32 (11 / 10000))"
proof -
  have h1: "(\<not> mode_pin (demo_inputs 250 0 True)) = last_hv_mode (demo_state (f32 (20005 / 10000)) 2 False)"
    by (simp add: demo_inputs_sel demo_state_sel)
  have h2: "(\<not> mode_pin (demo_inputs 250 0 True)) = last_hv_mode (demo_state (f32 (20015 / 10000)) 2 False)"
    by (simp add: demo_inputs_sel demo_state_sel)
  have h3: "(\<not> mode_pin (demo_inputs 250 0 False)) =
      last_hv_mode (demo_state (f32 (515 / 10000)) (f32 (500 / 10000)) True)"
    by (simp add: demo_inputs_sel demo_state_sel)
  have h4: "(\<not> mode_pin (demo_inputs 250 0 True)) =
      last_hv_mode (demo_state (f32 (11 / 10000)) (f32 (1 / 10000)) False)"
    by (simp add: demo_inputs_sel demo_state_sel)
  note t1 = dispVolts_same_range_pin_volts [OF h1, of demo_platform,
      unfolded demo_state_sel demo_inputs_sel if_not_P [OF redraw_direct_no]]
  note t2 = dispVolts_same_range_pin_volts [OF h2, of demo_platform,
      unfolded demo_state_sel demo_inputs_sel if_P [OF redraw_direct_yes]]
  note t3 = dispVolts_same_range_pin_volts [OF h3, of demo_platform,
      unfolded demo_state_sel demo_inputs_sel if_P [OF redraw_kv_yes]]
  note t4 = dispVolts_same_range_pin_volts [OF h4, of demo_platform,
      unfolded demo_state_sel demo_inputs_sel if_P [OF redraw_rounded_up]]
  from t1 have a1: "snd (dispVolts demo_platform (demo_inputs 250 0 True)
      (demo_state (f32 (20005 / 10000)) 2 False)) = [DigitalRead_MODE True]"
    by blast
  from t1 have a2: "last_disp_V (fst (dispVolts demo_platform (demo_inputs 250 0 True)
       (demo_state (f32 (20005 / 10000)) 2 False))) = 2"
    by blast
  from t2 have b1: "filter is_draw (snd (dispVolts demo_platform (demo_inputs 250 0 True)
       (demo_state (f32 (20015 / 10000)) 2 False))) =
     updateMainUI demo_platform False (f32 (20015 / 10000))"
    by blast
  from t2 have b2: "length (updateMainUI demo_platform False (f32 (20015 / 10000))) = 56"
    by (simp only: if_False simp_thms)
  from t2 have b3: "last_disp_V (fst (dispVolts demo_platform (demo_inputs 250 0 True)
       (demo_state (f32 (20015 / 10000)) 2 False))) = f32 (20015 / 10000)"
    by blast
  from t3 have c1: "filter is_draw (snd (dispVolts demo_platform (demo_inputs 250 0 False)
       (demo_state (f32 (515 / 10000)) (f32 (500 / 10000)) True))) =
     updateMainUI demo_platform True (f32 (515 / 10000))"
    by blast
  from t3 have c2: "length (updateMainUI demo_platform True (f32 (515 / 10000))) = 60"
    by (simp only: if_True simp_thms)
  have d0: "f32 (11 / 10000) - f32 (1 / 10000) < REDRAW_THRESHOLD"
    unfolding REDRAW_THRESHOLD_eq f32_00011 f32_00001 by simp
  from t4 have d1: "filter is_draw (snd (dispVolts demo_platform (demo_inputs 250 0 True)
       (demo_state (f32 (11 / 10000)) (f32 (1 / 10000)) False))) =
     updateMainUI demo_platform False (f32 (11 / 10000))"
    by blast
  show ?thesis
    by (intro conjI h1 a1 a2 h2 b1 b2 b3 h3 c1 c2 h4 d0 d1)
qed

text \<open>
  Claim C2 as stated fails in the attenuated range, where the display shows ten times the
  voltage at the pin. With \<^verbatim>\<open>0.0500f\<close> drawn last (0.50 kV on the display) and \<^verbatim>\<open>0.0509f\<close> now
  at the pin, the display value has moved by 0.009, nine times 0.001, and nothing is
  drawn: \<^verbatim>\<open>last_disp_V\<close> stays.
\<close>

theorem dispVolts_kv_display_change_not_drawn:
  "(\<not> mode_pin (demo_inputs 250 0 False)) =
     last_hv_mode (demo_state (f32 (509 / 10000)) (f32 (500 / 10000)) True)
 \<and> displayVal True (f32 (500 / 10000)) = 1 / 2
 \<and> displayVal True (f32 (509 / 10000)) = 8539603 / 2 ^ 24
 \<and> 9 * REDRAW_THRESHOLD <
     \<bar>displayVal True (filtered_V (demo_state (f32 (509 / 10000)) (f32 (500 / 10000)) True))
      - displayVal True (last_disp_V (demo_state (f32 (509 / 10000)) (f32 (500 / 10000)) True))\<bar>
 \<and> filter is_draw (snd (dispVolts demo_platform (demo_inputs 250 0 False)
       (demo_state (f32 (509 / 10000)) (f32 (500 / 10000)) True))) = []
 \<and> snd (dispVolts demo_platform (demo_inputs 250 0 False)
       (demo_state (f32 (509 / 10000)) (f32 (500 / 10000)) True)) = [DigitalRead_MODE False]
 \<and> last_disp_V (fst (dispVolts demo_platform (demo_inputs 250 0 False)
       (demo_state (f32 (509 / 10000)) (f32 (500 / 10000)) True))) = f32 (500 / 10000)"
proof -
  have h: "(\<not> mode_pin (demo_inputs 250 0 False)) =
      last_hv_mode (demo_state (f32 (509 / 10000)) (f32 (500 / 10000)) True)"
    by (simp add: demo_inputs_sel demo_state_sel)
  note t = dispVolts_unchanged [OF h, of demo_platform,
      unfolded demo_state_sel demo_inputs_sel if_not_P [OF redraw_kv_no]]
  have g: "9 * REDRAW_THRESHOLD <
     \<bar>displayVal True (filtered_V (demo_state (f32 (509 / 10000)) (f32 (500 / 10000)) True))
      - displayVal True (last_disp_V (demo_state (f32 (509 / 10000)) (f32 (500 / 10000)) True))\<bar>"
    unfolding demo_state_sel displayVal_00500 displayVal_00509 REDRAW_THRESHOLD_eq by simp
  have e: "snd (dispVolts demo_platform (demo_inputs 250 0 False)
       (demo_state (f32 (509 / 10000)) (f32 (500 / 10000)) True)) = [DigitalRead_MODE False]"
    unfolding t by simp
  have d: "filter is_draw (snd (dispVolts demo_platform (demo_inputs 250 0 False)
       (demo_state (f32 (509 / 10000)) (f32 (500 / 10000)) True))) = []"
    unfolding e by simp
  have l: "last_disp_V (fst (dispVolts demo_platform (demo_inputs 250 0 False)
       (demo_state (f32 (509 / 10000)) (f32 (500 / 10000)) True))) = f32 (500 / 10000)"
    unfolding t by (simp add: demo_state_sel)
  show ?thesis
    by (intro conjI h displayVal_00500 displayVal_00509 g e d l)
qed

subsection \<open>Acquisition\<close>

lemma unat_fold_sum:
  "unat acc + sum_list (map unat cs) < 2 ^ 32 \<Longrightarrow>
   unat (fold (\<lambda>c s. s + ucast c) cs (acc :: 32 word))
     = unat acc + sum_list (map unat (cs :: 16 word list))"
proof (induction cs arbitrary: acc)
  case Nil
  show ?case by simp
next
  case (Cons c cs)
  have "unat c < 2 ^ 16" using unsigned_less [of c, where 'a = nat] by simp
  then have uc: "unat (ucast c :: 32 word) = unat c"
    by (simp add: unsigned_ucast_eq take_bit_nat_eq_self)
  have step: "unat (acc + ucast c) = unat acc + unat c"
    using Cons.prems by (simp add: unat_word_ariths uc)
  show ?case
    using Cons.IH [of "acc + ucast c"] Cons.prems step by simp
qed

lemma sum_unat_bound: "sum_list (map unat (cs :: 16 word list)) \<le> 65535 * length cs"
proof (induction cs)
  case Nil
  show ?case by simp
next
  case (Cons c cs)
  have "unat c < 2 ^ 16" using unsigned_less [of c, where 'a = nat] by simp
  then show ?case using Cons by simp
qed

lemma length_readings: "length (readings rd) = 8"
  by (simp add: readings_def N_SAMPLES_def)

lemma readings_eq: "readings rd = [rd 0, rd 1, rd 2, rd 3, rd 4, rd 5, rd 6, rd 7]"
proof -
  have "[0..<8] = [0, 1, 2, 3, 4, 5, 6, 7::nat]"
    by (simp add: upt_rec)
  then show ?thesis by (simp add: readings_def N_SAMPLES_def)
qed

lemma sum_readings_bound: "sum_list (map unat (readings rd)) \<le> 524280"
  using sum_unat_bound [of "readings rd"] by (simp add: length_readings)

lemma sum_codes_exact: "unat (sum_codes (readings rd)) = sum_list (map unat (readings rd))"
proof -
  have "unat (0 :: 32 word) + sum_list (map unat (readings rd)) < 2 ^ 32"
    using sum_readings_bound [of rd] by simp
  from unat_fold_sum [OF this] show ?thesis
    by (simp add: sum_codes_def)
qed

text \<open>
  The sum of eight codes is below \<open>2^24\<close> and a multiple of one eighth with a numerator
  below \<open>2^24\<close> is a binary32 number: the two casts and the division by the number of
  samples are exact. The division by 65535 and the product with the reference round.
\<close>

lemma avg_code_exact:
  assumes "n \<le> 524280"
  shows "f32 (f32 (real n) / f32 (real (8::nat))) = real n / 8"
proof -
  have a: "f32 (real n) = real n"
    using assms by (intro f32_of_nat) simp
  have b: "f32 (real (8::nat)) = 8"
    using f32_exact [of 8 0] by simp
  have "\<bar>int n\<bar> \<le> 2 ^ 24" using assms by simp
  from f32_exact [OF this, of 3] have c: "f32 (real n / 8) = real n / 8"
    by simp
  show ?thesis by (simp only: a b c)
qed

lemma fst_measureVoltage:
  "fst (measureVoltage hv rd) =
     f32 (f32 (real (sum_list (map unat (readings rd))) / 8 / 65535)
          * (if hv then f32 (11 / 10) else f32 (33 / 10)))"
  unfolding measureVoltage_def Let_def sum_codes_exact N_SAMPLES_def fst_conv
    avg_code_exact [OF sum_readings_bound] ADC_MAX_CODE_def scale_ref_def
  by (rule refl)

lemma snd_measureVoltage: "snd (measureVoltage hv rd) = map AnalogRead (readings rd)"
  by (simp add: measureVoltage_def Let_def)

lemma scale_ref_bounds:
  "1 \<le> (if hv then f32 (11 / 10) else f32 (33 / 10))"
  "(if hv then f32 (11 / 10) else f32 (33 / 10)) \<le> 4"
  "\<bar>(if hv then f32 (11 / 10) else f32 (33 / 10)) - (if hv then 11 / 10 else 33 / 10)\<bar> \<le> 1 / 2 ^ 22"
  by (simp_all add: f32_33_10 f32_11_10)

text \<open>
  The distance of the result from the exact value of the formula: three roundings, of
  the quotient, of the reference and of the product, on numbers that stay below 4.
\<close>

lemma measure_error:
  fixes r S S' :: real
  assumes r: "0 \<le> r" "r \<le> 1" and S: "1 \<le> S'" "S' \<le> 4" "\<bar>S' - S\<bar> \<le> 1 / 2 ^ 22"
  shows "\<bar>f32 (f32 r * S') - r * S\<bar> \<le> 1 / 2 ^ 20"
proof -
  define a where "a = f32 r"
  have ea: "\<bar>a - r\<bar> \<le> 1 / 2 ^ 24 + 1 / 2 ^ 150"
  proof -
    have "\<bar>r\<bar> / 2 ^ 24 \<le> 1 / 2 ^ 24" using r by (simp add: divide_right_mono)
    then show ?thesis using f32_rel_err [of r] unfolding a_def by linarith
  qed
  have a0: "0 \<le> a" unfolding a_def using r(1) by (rule f32_nonneg)
  have a1: "a \<le> 1" using f32_mono [OF r] by (simp add: a_def f32_one)
  have p: "\<bar>a * S'\<bar> \<le> 4"
  proof -
    have "a * S' \<le> 1 * 4" using a0 a1 S by (intro mult_mono) simp_all
    moreover have "0 \<le> a * S'" using a0 S by simp
    ultimately show ?thesis by simp
  qed
  have e1: "\<bar>f32 (a * S') - a * S'\<bar> \<le> 4 / 2 ^ 24 + 1 / 2 ^ 150"
  proof -
    have "\<bar>a * S'\<bar> / 2 ^ 24 \<le> 4 / 2 ^ 24" using p by (simp add: divide_right_mono)
    then show ?thesis using f32_rel_err [of "a * S'"] by linarith
  qed
  have e2: "\<bar>(a - r) * S'\<bar> \<le> (1 / 2 ^ 24 + 1 / 2 ^ 150) * 4"
    unfolding abs_mult using ea S by (intro mult_mono) simp_all
  have e3: "\<bar>r * (S' - S)\<bar> \<le> 1 * (1 / 2 ^ 22)"
    unfolding abs_mult using r S(3) by (intro mult_mono) simp_all
  have "f32 (a * S') - r * S = 0 + (f32 (a * S') - a * S') + (a - r) * S' + r * (S' - S)"
    by (simp add: algebra_simps)
  then have "\<bar>f32 (a * S') - r * S\<bar>
      \<le> \<bar>0\<bar> + \<bar>f32 (a * S') - a * S'\<bar> + \<bar>(a - r) * S'\<bar> + \<bar>r * (S' - S)\<bar>"
    using abs_sum4 [of 0 "f32 (a * S') - a * S'" "(a - r) * S'" "r * (S' - S)"] by (simp only:)
  then have "\<bar>f32 (a * S') - r * S\<bar>
      \<le> \<bar>f32 (a * S') - a * S'\<bar> + \<bar>(a - r) * S'\<bar> + \<bar>r * (S' - S)\<bar>"
    by simp
  also have "\<dots> \<le> (4 / 2 ^ 24 + 1 / 2 ^ 150) + (1 / 2 ^ 24 + 1 / 2 ^ 150) * 4 + 1 * (1 / 2 ^ 22)"
    by (intro add_mono e1 e2 e3)
  also have "\<dots> \<le> 1 / 2 ^ 20" by simp
  finally show ?thesis by (simp only: a_def)
qed

lemma mean_ratio_bounds:
  assumes "n \<le> 524280"
  shows "0 \<le> real n / 8 / 65535" "real n / 8 / 65535 \<le> 1"
proof -
  show "0 \<le> real n / 8 / 65535" by simp
  have "real n \<le> 524280" using assms by simp
  then show "real n / 8 / 65535 \<le> 1" by simp
qed

text \<open>
  What the filter is fed: a finite binary32 number that is not negative and, when it is
  not zero, is far above the subnormal numbers.
\<close>

lemma measureVoltage_range:
  "is_f32 (fst (measureVoltage hv rd))"
  "0 \<le> fst (measureVoltage hv rd)"
  "fst (measureVoltage hv rd) = 0 \<or> 1 / 2 ^ 125 \<le> fst (measureVoltage hv rd)"
  "fst (measureVoltage hv rd) \<le> 4"
proof -
  define n where "n = sum_list (map unat (readings rd))"
  define r where "r = real n / 8 / 65535"
  define S' :: real where "S' = (if hv then f32 (11 / 10) else f32 (33 / 10))"
  have n: "n \<le> 524280" unfolding n_def by (rule sum_readings_bound)
  have r: "0 \<le> r" "r \<le> 1" using mean_ratio_bounds [OF n] by (simp_all add: r_def)
  have S: "1 \<le> S'" "S' \<le> 4" using scale_ref_bounds(1,2) [of hv] by (simp_all add: S'_def)
  have v: "fst (measureVoltage hv rd) = f32 (f32 r * S')"
    by (simp only: fst_measureVoltage n_def r_def S'_def)
  have a0: "0 \<le> f32 r" using r(1) by (rule f32_nonneg)
  have a1: "f32 r \<le> 1" using f32_mono [OF r] by (simp add: f32_one)
  have p0: "0 \<le> f32 r * S'" using a0 S by simp
  have p1: "f32 r * S' \<le> 1 * 4" using a0 a1 S by (intro mult_mono) simp_all
  have f4: "f32 4 = 4" using f32_exact [of 4 0] by simp
  show nn: "0 \<le> fst (measureVoltage hv rd)" unfolding v using p0 by (rule f32_nonneg)
  show le: "fst (measureVoltage hv rd) \<le> 4"
    unfolding v using f32_mono [OF p0, of 4] p1 by (simp add: f4)
  have "f32 (fst (measureVoltage hv rd)) = fst (measureVoltage hv rd)"
    unfolding v by (rule f32_idem)
  then show "is_f32 (fst (measureVoltage hv rd))"
    using nn le by (simp add: is_f32_def)
  show "fst (measureVoltage hv rd) = 0 \<or> 1 / 2 ^ 125 \<le> fst (measureVoltage hv rd)"
  proof (cases "n = 0")
    case True
    then show ?thesis by (simp add: v r_def f32_zero)
  next
    case False
    then have "1 \<le> real n" by simp
    then have "1 / 2 ^ 20 \<le> r" unfolding r_def by simp
    moreover have "f32 (1 / 2 ^ 20) = 1 / 2 ^ 20" using f32_exact [of 1 20] by simp
    ultimately have a: "1 / 2 ^ 20 \<le> f32 r"
      using f32_mono [of "1 / 2 ^ 20" r] by simp
    have "1 / 2 ^ 20 * 1 \<le> f32 r * S'" using a S(1) by (intro mult_mono) simp_all
    then have "f32 (1 / 2 ^ 20) \<le> f32 (f32 r * S')" by (intro f32_mono) simp_all
    then have "1 / 2 ^ 20 \<le> fst (measureVoltage hv rd)"
      using \<open>f32 (1 / 2 ^ 20) = 1 / 2 ^ 20\<close> by (simp add: v)
    moreover have "(1::real) / 2 ^ 125 \<le> 1 / 2 ^ 20" by simp
    ultimately show ?thesis by linarith
  qed
qed

lemma measureVoltage_const:
  "measureVoltage hv (\<lambda>k. c) =
     (f32 (f32 (real (unat c) / 65535) * (if hv then f32 (11 / 10) else f32 (33 / 10))),
      replicate 8 (AnalogRead c))"
proof -
  have r: "readings (\<lambda>k. c) = replicate 8 c"
    by (simp add: readings_def N_SAMPLES_def map_replicate_const)
  have "fst (measureVoltage hv (\<lambda>k. c)) =
      f32 (f32 (real (unat c) / 65535) * (if hv then f32 (11 / 10) else f32 (33 / 10)))"
    by (simp add: fst_measureVoltage r sum_list_replicate)
  moreover have "snd (measureVoltage hv (\<lambda>k. c)) = replicate 8 (AnalogRead c)"
    by (simp add: measureVoltage_def Let_def r)
  ultimately show ?thesis by (simp add: prod_eq_iff)
qed

lemma measureVoltage_full_scale:
  "measureVoltage hv (\<lambda>k. 0xFFFF) =
     (if hv then 9227469 / 2 ^ 23 else 13841203 / 2 ^ 22, replicate 8 (AnalogRead 0xFFFF))"
proof -
  have k: "f32 (f32 (real (unat (0xFFFF :: 16 word)) / 65535) * f32 x) = f32 x" for x
    by (simp add: f32_one f32_idem)
  show ?thesis
  proof (cases hv)
    case True
    have "measureVoltage True (\<lambda>k. 0xFFFF) = (f32 (11 / 10), replicate 8 (AnalogRead 0xFFFF))"
      by (simp only: measureVoltage_const if_True k)
    then show ?thesis using True by (simp only: f32_11_10 if_True)
  next
    case False
    have "measureVoltage False (\<lambda>k. 0xFFFF) = (f32 (33 / 10), replicate 8 (AnalogRead 0xFFFF))"
      by (simp only: measureVoltage_const if_False k)
    then show ?thesis using False by (simp only: f32_33_10 if_False)
  qed
qed

text \<open>
  Claim C4. For either range and the eight codes \<open>rd 0\<close>, ..., \<open>rd 7\<close> that the eight
  \<^verbatim>\<open>analogRead\<close> calls return, \<^verbatim>\<open>measureVoltage\<close> returns their uniform mean (the sum cannot
  wrap and the mean is exact in \<^verbatim>\<open>float\<close>), divided by the maximum code 65535 and
  multiplied by the reference of the range in \<^verbatim>\<open>use_hv_mode\<close>: \<^verbatim>\<open>1.1f\<close> for the attenuated
  (kV) range, \<^verbatim>\<open>3.3f\<close> for the direct one, the quotient and the product rounded to
  \<^verbatim>\<open>float\<close>. The result is within \<open>2^-20\<close>, less than a microvolt, of the exact value of
  the formula with 1.1 and 3.3. At full scale in the attenuated range it is \<^verbatim>\<open>1.1f\<close>; with
  one code 0 and seven at full scale in the direct range (mean ratio 7/8) it is
  12111053 / \<open>2^22\<close>, about 2.8875.
\<close>

theorem measureVoltage_binary32_mean:
  "snd (measureVoltage hv rd) =
     [AnalogRead (rd 0), AnalogRead (rd 1), AnalogRead (rd 2), AnalogRead (rd 3),
      AnalogRead (rd 4), AnalogRead (rd 5), AnalogRead (rd 6), AnalogRead (rd 7)]
 \<and> fst (measureVoltage hv rd) =
     f32 (f32 (real (unat (rd 0) + unat (rd 1) + unat (rd 2) + unat (rd 3)
                     + unat (rd 4) + unat (rd 5) + unat (rd 6) + unat (rd 7)) / 8 / 65535)
          * (if hv then f32 (11 / 10) else f32 (33 / 10)))
 \<and> \<bar>fst (measureVoltage hv rd)
      - real (unat (rd 0) + unat (rd 1) + unat (rd 2) + unat (rd 3)
              + unat (rd 4) + unat (rd 5) + unat (rd 6) + unat (rd 7)) / 8 / 65535
        * (if hv then 11 / 10 else 33 / 10)\<bar> \<le> 1 / 2 ^ 20
 \<and> f32 (11 / 10) = 9227469 / 2 ^ 23
 \<and> f32 (33 / 10) = 13841203 / 2 ^ 22
 \<and> fst (measureVoltage True (\<lambda>k. 0xFFFF)) = 9227469 / 2 ^ 23
 \<and> fst (measureVoltage False (\<lambda>k. if k = 0 then 0 else 0xFFFF)) = 12111053 / 2 ^ 22"
proof -
  define n where "n = unat (rd 0) + unat (rd 1) + unat (rd 2) + unat (rd 3)
      + unat (rd 4) + unat (rd 5) + unat (rd 6) + unat (rd 7)"
  have s: "sum_list (map unat (readings rd)) = n"
    by (simp add: readings_eq n_def)
  have n: "n \<le> 524280" using sum_readings_bound [of rd] by (simp only: s)
  have a: "snd (measureVoltage hv rd) =
     [AnalogRead (rd 0), AnalogRead (rd 1), AnalogRead (rd 2), AnalogRead (rd 3),
      AnalogRead (rd 4), AnalogRead (rd 5), AnalogRead (rd 6), AnalogRead (rd 7)]"
    by (simp add: snd_measureVoltage readings_eq)
  have b: "fst (measureVoltage hv rd) =
      f32 (f32 (real n / 8 / 65535) * (if hv then f32 (11 / 10) else f32 (33 / 10)))"
    by (simp only: fst_measureVoltage s)
  have c: "\<bar>fst (measureVoltage hv rd) - real n / 8 / 65535 * (if hv then 11 / 10 else 33 / 10)\<bar>
      \<le> 1 / 2 ^ 20"
    unfolding b by (rule measure_error [OF mean_ratio_bounds [OF n] scale_ref_bounds])
  have d: "fst (measureVoltage True (\<lambda>k. 0xFFFF)) = 9227469 / 2 ^ 23"
    by (simp add: measureVoltage_full_scale)
  have e: "fst (measureVoltage False (\<lambda>k. if k = 0 then 0 else 0xFFFF)) = 12111053 / 2 ^ 22"
  proof -
    have "sum_list (map unat (readings (\<lambda>k. if k = 0 then 0 else (0xFFFF :: 16 word)))) = 458745"
      by (simp add: readings_eq)
    then have v: "fst (measureVoltage False (\<lambda>k. if k = 0 then 0 else 0xFFFF)) =
        f32 (f32 (7 / 8) * f32 (33 / 10))"
      by (simp add: fst_measureVoltage)
    have s1: "f32 (7 / 8) = 7 / 8" using f32_exact [of 7 3] by simp
    have s2: "f32 (7 / 8 * f32 (33 / 10)) = 12111053 / 2 ^ 22"
      unfolding f32_33_10
      by (rule f32_eval [where j = 22, THEN trans]) (simp_all add: round_half_even_def)
    show ?thesis by (simp only: v s1 s2)
  qed
  show ?thesis
    unfolding n_def [symmetric]
    by (intro conjI a b c f32_11_10 f32_33_10 d e)
qed

subsection \<open>The filter\<close>

lemma ema_eq: "ema s f = f32 (f32 (s / 2) + f32 (f / 2))"
  by (simp add: ema_def ALPHA_def f32_half)

lemma ema_between:
  assumes s: "is_f32 s" "0 \<le> s" "s = 0 \<or> 1 / 2 ^ 125 \<le> s"
    and f: "is_f32 f" "0 \<le> f"
  shows "min f s \<le> ema s f" "ema s f \<le> max f s"
proof -
  have fs: "f32 s = s" and ff: "f32 f = f" and bf: "\<bar>f\<bar> < 2 ^ 128"
    using s(1) f(1) by (simp_all add: is_f32_def)
  have b0: "0 \<le> f32 (f / 2)" using f(2) by (intro f32_nonneg) simp
  have bh: "f32 (f / 2) \<le> f" using f32_mono [of "f / 2" f] f(2) ff by simp
  have "min f s \<le> ema s f \<and> ema s f \<le> max f s"
  proof (cases "s = 0")
    case True
    have "ema s f = f32 (f32 (f / 2))" using True by (simp add: ema_eq f32_zero)
    also have "\<dots> = f32 (f / 2)" by (rule f32_idem)
    finally show ?thesis using True b0 bh f(2) by simp
  next
    case False
    then have sb: "1 / 2 ^ 125 \<le> s" using s(3) by simp
    have a: "f32 (s / 2) = s / 2" using s(1) sb by (rule half_exact)
    have e: "ema s f = f32 (s / 2 + f32 (f / 2))" by (simp add: ema_eq a)
    show ?thesis
    proof (cases "f \<le> s")
      case True
      have "f32 (f / 2) \<le> f32 (s / 2)" using True f(2) by (intro f32_mono) simp_all
      then have "s / 2 + f32 (f / 2) \<le> s" using a by simp
      then have up: "ema s f \<le> s"
        using f32_mono [of "s / 2 + f32 (f / 2)" s] b0 s(2) fs e by simp
      have "f \<le> s / 2 + f32 (f / 2)"
      proof (cases "1 / 2 ^ 125 \<le> f")
        case T: True
        have "f32 (f / 2) = f / 2" using f(1) T by (rule half_exact)
        then show ?thesis using True by simp
      next
        case F: False
        then have fl: "f < 1 / 2 ^ 125" by simp
        have g: "f \<le> 1 / 2 ^ 125 - 1 / 2 ^ 149" using f fl by (rule small_grid)
        have "\<bar>f32 (f / 2) - f / 2\<bar> \<le> 1 / 2 ^ 150"
          using f(2) fl by (intro small_err) simp_all
        then have "f / 2 - 1 / 2 ^ 150 \<le> f32 (f / 2)" by linarith
        moreover have "1 / 2 ^ 126 \<le> s / 2" using sb by simp
        ultimately show ?thesis using g by simp
      qed
      then have "f \<le> ema s f"
        using f32_mono [of f "s / 2 + f32 (f / 2)"] f(2) ff e by simp
      then show ?thesis using up True by simp
    next
      case False
      then have sf: "s \<le> f" by simp
      then have "1 / 2 ^ 125 \<le> f" using sb by simp
      then have b: "f32 (f / 2) = f / 2" using f(1) by (intro half_exact)
      have "s \<le> ema s f"
        using f32_mono [of s "s / 2 + f / 2"] s(2) fs sf e b by simp
      moreover have "ema s f \<le> f"
        using f32_mono [of "s / 2 + f / 2" f] s(2) f(2) ff sf e b by simp
      ultimately show ?thesis using sf by simp
    qed
  qed
  then show "min f s \<le> ema s f" "ema s f \<le> max f s" by simp_all
qed

lemma ema_is_f32:
  assumes s: "is_f32 s" "0 \<le> s" "s = 0 \<or> 1 / 2 ^ 125 \<le> s"
    and f: "is_f32 f" "0 \<le> f"
  shows "is_f32 (ema s f)" "0 \<le> ema s f"
proof -
  have lo: "min f s \<le> ema s f" and hi: "ema s f \<le> max f s"
    using ema_between [OF assms] by simp_all
  show nn: "0 \<le> ema s f" using lo s(2) f(2) by simp
  have "\<bar>s\<bar> < 2 ^ 128" "\<bar>f\<bar> < 2 ^ 128" using s(1) f(1) by (simp_all add: is_f32_def)
  then have b: "\<bar>ema s f\<bar> < 2 ^ 128" using nn hi s(2) f(2) by simp
  have "f32 (ema s f) = ema s f" unfolding ema_eq by (rule f32_idem)
  then show "is_f32 (ema s f)" using b by (simp add: is_f32_def)
qed

lemma ema_run_step: "ema_run (replicate (Suc n) s) f0 = ema s (ema_run (replicate n s) f0)"
proof -
  have "replicate (Suc n) s = replicate n s @ [s]" by (simp add: replicate_append_same)
  then show ?thesis by (simp add: ema_run_def)
qed

lemma ema_run_inv:
  assumes s: "is_f32 s" "0 \<le> s" "s = 0 \<or> 1 / 2 ^ 125 \<le> s"
    and f: "is_f32 f0" "0 \<le> f0"
  shows "is_f32 (ema_run (replicate n s) f0) \<and> 0 \<le> ema_run (replicate n s) f0
       \<and> min f0 s \<le> ema_run (replicate n s) f0 \<and> ema_run (replicate n s) f0 \<le> max f0 s"
proof (induction n)
  case 0
  show ?case using f by (simp add: ema_run_def)
next
  case (Suc n)
  let ?f = "ema_run (replicate n s) f0"
  from Suc have i: "is_f32 ?f" "0 \<le> ?f" "min f0 s \<le> ?f" "?f \<le> max f0 s" by simp_all
  have b: "min ?f s \<le> ema s ?f" "ema s ?f \<le> max ?f s"
    using ema_between [OF s i(1,2)] by simp_all
  have t: "is_f32 (ema s ?f)" "0 \<le> ema s ?f"
    using ema_is_f32 [OF s i(1,2)] by simp_all
  show ?case
    unfolding ema_run_step using b t i(3,4) by (simp add: min_def max_def split: if_splits)
qed

lemma ema_run_error_decreases:
  assumes s: "is_f32 s" "0 \<le> s" "s = 0 \<or> 1 / 2 ^ 125 \<le> s"
    and f: "is_f32 f0" "0 \<le> f0"
  shows "\<bar>ema_run (replicate (Suc n) s) f0 - s\<bar> \<le> \<bar>ema_run (replicate n s) f0 - s\<bar>"
proof -
  let ?f = "ema_run (replicate n s) f0"
  have i: "is_f32 ?f" "0 \<le> ?f" using ema_run_inv [OF assms, of n] by simp_all
  have b: "min ?f s \<le> ema s ?f" "ema s ?f \<le> max ?f s"
    using ema_between [OF s i] by simp_all
  then show ?thesis unfolding ema_run_step by (simp add: min_def max_def split: if_splits)
qed

lemma ema_step_error:
  "\<bar>ema s f - s\<bar> \<le> \<bar>f - s\<bar> / 2 + max \<bar>s\<bar> \<bar>f\<bar> / 2 ^ 22 + 1 / 2 ^ 148"
proof -
  define a where "a = f32 (s / 2)"
  define b where "b = f32 (f / 2)"
  define S where "S = \<bar>s\<bar>"
  define F where "F = \<bar>f\<bar>"
  define M where "M = max S F"
  have SF: "0 \<le> S" "0 \<le> F" "S \<le> M" "F \<le> M" by (simp_all add: S_def F_def M_def)
  have ea: "\<bar>a - s / 2\<bar> \<le> S / 2 ^ 25 + 1 / 2 ^ 150"
    using f32_rel_err [of "s / 2"] by (simp add: a_def S_def)
  have eb: "\<bar>b - f / 2\<bar> \<le> F / 2 ^ 25 + 1 / 2 ^ 150"
    using f32_rel_err [of "f / 2"] by (simp add: b_def F_def)
  have ec: "\<bar>ema s f - (a + b)\<bar> \<le> \<bar>a + b\<bar> / 2 ^ 24 + 1 / 2 ^ 150"
    using f32_rel_err [of "a + b"] by (simp add: ema_eq a_def b_def)
  have ab: "\<bar>a + b\<bar> \<le> S / 2 + F / 2 + S / 2 ^ 25 + F / 2 ^ 25 + 1 / 2 ^ 149"
  proof -
    have "a + b = (a - s / 2) + (b - f / 2) + s / 2 + f / 2" by simp
    then have "\<bar>a + b\<bar> \<le> \<bar>a - s / 2\<bar> + \<bar>b - f / 2\<bar> + \<bar>s / 2\<bar> + \<bar>f / 2\<bar>"
      using abs_sum4 [of "a - s / 2" "b - f / 2" "s / 2" "f / 2"] by (simp only:)
    then show ?thesis using ea eb by (simp add: S_def F_def)
  qed
  have ab2: "\<bar>a + b\<bar> \<le> 2 * M + 1 / 2 ^ 149"
  proof -
    have "S / 2 ^ 25 \<le> S / 2" "F / 2 ^ 25 \<le> F / 2" using SF by simp_all
    then show ?thesis using ab SF by linarith
  qed
  have "\<bar>a + b\<bar> / 2 ^ 24 \<le> (2 * M + 1 / 2 ^ 149) / 2 ^ 24"
    using ab2 by (rule divide_right_mono) simp
  then have ec2: "\<bar>ema s f - (a + b)\<bar> \<le> M / 2 ^ 23 + 1 / 2 ^ 173 + 1 / 2 ^ 150"
    using ec by (simp add: add_divide_distrib)
  have "ema s f - s = (ema s f - (a + b)) + (a - s / 2) + (b - f / 2) + (f - s) / 2"
    by (simp add: diff_divide_distrib)
  then have "\<bar>ema s f - s\<bar> \<le> \<bar>ema s f - (a + b)\<bar> + \<bar>a - s / 2\<bar> + \<bar>b - f / 2\<bar> + \<bar>(f - s) / 2\<bar>"
    using abs_sum4 [of "ema s f - (a + b)" "a - s / 2" "b - f / 2" "(f - s) / 2"] by (simp only:)
  then have "\<bar>ema s f - s\<bar> \<le> \<bar>ema s f - (a + b)\<bar> + \<bar>a - s / 2\<bar> + \<bar>b - f / 2\<bar> + \<bar>f - s\<bar> / 2"
    by simp
  also have "\<dots> \<le> (M / 2 ^ 23 + 1 / 2 ^ 173 + 1 / 2 ^ 150) + (M / 2 ^ 25 + 1 / 2 ^ 150)
      + (M / 2 ^ 25 + 1 / 2 ^ 150) + \<bar>f - s\<bar> / 2"
  proof -
    have "S / 2 ^ 25 \<le> M / 2 ^ 25" "F / 2 ^ 25 \<le> M / 2 ^ 25" using SF by (simp_all add: divide_right_mono)
    then show ?thesis using ec2 ea eb by linarith
  qed
  also have "\<dots> \<le> \<bar>f - s\<bar> / 2 + M / 2 ^ 22 + 1 / 2 ^ 148"
  proof -
    have "0 \<le> M" using SF by linarith
    then have "M / 2 ^ 23 + M / 2 ^ 25 + M / 2 ^ 25 \<le> M / 2 ^ 22" by simp
    moreover have "(1::real) / 2 ^ 173 + 1 / 2 ^ 150 + 1 / 2 ^ 150 + 1 / 2 ^ 150 \<le> 1 / 2 ^ 148" by simp
    ultimately show ?thesis by linarith
  qed
  finally show ?thesis by (simp add: M_def S_def F_def)
qed

lemma ema_run_error:
  assumes s: "is_f32 s" "0 \<le> s" "s = 0 \<or> 1 / 2 ^ 125 \<le> s"
    and f: "is_f32 f0" "0 \<le> f0"
  shows "\<bar>ema_run (replicate n s) f0 - s\<bar>
       \<le> (1 - ALPHA) ^ n * \<bar>f0 - s\<bar> + max f0 s / 2 ^ 21 + 1 / 2 ^ 147"
proof (induction n)
  case 0
  have "0 \<le> max f0 s / 2 ^ 21" using s(2) f(2) by simp
  then show ?case by (simp add: ema_run_def)
next
  case (Suc n)
  let ?f = "ema_run (replicate n s) f0"
  define M where "M = max f0 s"
  have i: "0 \<le> ?f" "?f \<le> M" using ema_run_inv [OF assms, of n] by (simp_all add: M_def)
  have "max \<bar>s\<bar> \<bar>?f\<bar> \<le> M" using i s(2) by (simp add: M_def)
  then have m: "max \<bar>s\<bar> \<bar>?f\<bar> / 2 ^ 22 \<le> M / 2 ^ 22" by (simp add: divide_right_mono)
  have "\<bar>ema s ?f - s\<bar> \<le> \<bar>?f - s\<bar> / 2 + M / 2 ^ 22 + 1 / 2 ^ 148"
    using ema_step_error [of s ?f] m by linarith
  also have "\<dots> \<le> ((1 - ALPHA) ^ n * \<bar>f0 - s\<bar> + M / 2 ^ 21 + 1 / 2 ^ 147) / 2 + M / 2 ^ 22 + 1 / 2 ^ 148"
    using Suc by (simp add: M_def)
  also have "\<dots> = (1 - ALPHA) ^ Suc n * \<bar>f0 - s\<bar> + M / 2 ^ 21 + 1 / 2 ^ 147"
    by (simp add: ALPHA_def add_divide_distrib)
  finally show ?case unfolding ema_run_step by (simp add: M_def)
qed

lemma ema_run_settled:
  assumes s: "is_f32 s" "0 \<le> s" "s = 0 \<or> 1 / 2 ^ 125 \<le> s"
    and f: "is_f32 f0" "0 \<le> f0"
  shows "\<bar>ema_run (replicate (21 + n) s) f0 - s\<bar> \<le> max f0 s / 2 ^ 20 + 1 / 2 ^ 147"
proof -
  define M where "M = max f0 s"
  have d: "\<bar>f0 - s\<bar> \<le> M" using s(2) f(2) by (simp add: M_def)
  have M0: "0 \<le> M" using s(2) by (simp add: M_def)
  have "(1 - ALPHA) ^ (21 + n) \<le> (1 - ALPHA) ^ 21"
    by (intro power_decreasing) (simp_all add: ALPHA_def)
  then have p: "(1 - ALPHA) ^ (21 + n) \<le> 1 / 2 ^ 21"
    by (simp add: ALPHA_def power_divide)
  have "(1 - ALPHA) ^ (21 + n) * \<bar>f0 - s\<bar> \<le> 1 / 2 ^ 21 * M"
    using p d by (intro mult_mono) simp_all
  then show ?thesis
    using ema_run_error [OF assms, of "21 + n"] by (simp add: M_def)
qed

lemma ema_run_monotone:
  assumes s: "is_f32 s" "0 \<le> s" "s = 0 \<or> 1 / 2 ^ 125 \<le> s"
    and f: "is_f32 f0" "0 \<le> f0"
  shows "f0 \<le> s \<Longrightarrow> ema_run (replicate n s) f0 \<le> ema_run (replicate (Suc n) s) f0"
    and "s \<le> f0 \<Longrightarrow> ema_run (replicate (Suc n) s) f0 \<le> ema_run (replicate n s) f0"
proof -
  let ?f = "ema_run (replicate n s) f0"
  have i: "is_f32 ?f" "0 \<le> ?f" "min f0 s \<le> ?f" "?f \<le> max f0 s"
    using ema_run_inv [OF assms, of n] by simp_all
  have b: "min ?f s \<le> ema s ?f" "ema s ?f \<le> max ?f s"
    using ema_between [OF s i(1,2)] by simp_all
  show "f0 \<le> s \<Longrightarrow> ?f \<le> ema_run (replicate (Suc n) s) f0"
    unfolding ema_run_step using b i by (simp add: min_def max_def split: if_splits)
  show "s \<le> f0 \<Longrightarrow> ema_run (replicate (Suc n) s) f0 \<le> ?f"
    unfolding ema_run_step using b i by (simp add: min_def max_def split: if_splits)
qed

lemma ema_one_step:
  assumes "n < 24"
  shows "ema 1 (1 - 1 / 2 ^ n) = 1 - 1 / 2 ^ Suc n"
proof -
  have p: "(2::int) ^ n \<le> 2 ^ 24" "(2::int) ^ Suc n \<le> 2 ^ 24"
    using assms by (intro power_increasing; simp)+
  have m1: "\<bar>(2::int) ^ n - 1\<bar> \<le> 2 ^ 24" using p(1) by simp
  have m2: "\<bar>(2::int) ^ Suc n - 1\<bar> \<le> 2 ^ 24" using p(2) by simp
  have j: "Suc n \<le> 149" using assms by simp
  have h: "(1 - 1 / 2 ^ n) / 2 = (of_int (2 ^ n - 1) / 2 ^ Suc n :: real)"
    by (simp add: field_simps)
  have a: "f32 ((1 - 1 / 2 ^ n) / 2) = of_int (2 ^ n - 1) / 2 ^ Suc n"
    unfolding h by (rule f32_exact [OF m1 j])
  have t: "1 / 2 + of_int (2 ^ n - 1) / 2 ^ Suc n = (of_int (2 ^ Suc n - 1) / 2 ^ Suc n :: real)"
    by (simp add: field_simps)
  have "ema 1 (1 - 1 / 2 ^ n) = f32 (1 / 2 + of_int (2 ^ n - 1) / 2 ^ Suc n)"
    by (simp only: ema_eq a f32_half)
  also have "\<dots> = of_int (2 ^ Suc n - 1) / 2 ^ Suc n"
    unfolding t by (rule f32_exact [OF m2 j])
  also have "\<dots> = 1 - 1 / 2 ^ Suc n"
    by (simp add: field_simps)
  finally show ?thesis .
qed

lemma ema_run_ones: "n \<le> 24 \<Longrightarrow> ema_run (replicate n 1) 0 = 1 - 1 / 2 ^ n"
proof (induction n)
  case 0
  show ?case by (simp add: ema_run_def)
next
  case (Suc n)
  then have "ema_run (replicate n 1) 0 = 1 - 1 / 2 ^ n" and "n < 24" by simp_all
  then show ?case
    by (simp only: ema_run_step ema_one_step)
qed

lemma ema_33_first: "ema (f32 (33 / 10)) 0 = 13841203 / 2 ^ 23"
proof -
  have a: "f32 (13841203 / 2 ^ 22 / 2) = 13841203 / 2 ^ 23"
    by (rule f32_eval [where j = 23, THEN trans]) (simp_all add: round_half_even_def)
  have z: "f32 (0 / 2) = 0"
    by (simp add: f32_zero)
  have b: "f32 (13841203 / 2 ^ 23 + 0) = 13841203 / 2 ^ 23"
    by (rule f32_eval [where j = 23, THEN trans]) (simp_all add: round_half_even_def)
  show ?thesis
    by (simp only: ema_eq f32_33_10 a z b)
qed

lemma ema_33_second: "ema (f32 (33 / 10)) (13841203 / 2 ^ 23) = 10380902 / 2 ^ 22"
proof -
  have a: "f32 (13841203 / 2 ^ 22 / 2) = 13841203 / 2 ^ 23"
    by (rule f32_eval [where j = 23, THEN trans]) (simp_all add: round_half_even_def)
  have b: "f32 (13841203 / 2 ^ 23 / 2) = 13841203 / 2 ^ 24"
    by (rule f32_eval [where j = 24, THEN trans]) (simp_all add: round_half_even_def)
  have c: "f32 (13841203 / 2 ^ 23 + 13841203 / 2 ^ 24) = 10380902 / 2 ^ 22"
    by (rule f32_eval [where j = 22, THEN trans]) (simp_all add: round_half_even_def)
  show ?thesis
    by (simp only: ema_eq f32_33_10 a b c)
qed

lemma ema_33_stuck: "ema (f32 (33 / 10)) (f32 (33 / 10) - 1 / 2 ^ 22) = f32 (33 / 10) - 1 / 2 ^ 22"
proof -
  have a: "f32 (13841203 / 2 ^ 22 / 2) = 13841203 / 2 ^ 23"
    by (rule f32_eval [where j = 23, THEN trans]) (simp_all add: round_half_even_def)
  have b: "f32 ((13841203 / 2 ^ 22 - 1 / 2 ^ 22) / 2) = 13841202 / 2 ^ 23"
    by (rule f32_eval [where j = 23, THEN trans]) (simp_all add: round_half_even_def)
  have c: "f32 (13841203 / 2 ^ 23 + 13841202 / 2 ^ 23) = 13841203 / 2 ^ 22 - 1 / 2 ^ 22"
    by (rule f32_eval [where j = 22, THEN trans]) (simp_all add: round_half_even_def)
  show ?thesis
    by (simp only: ema_eq f32_33_10 a b c)
qed

lemma ema_run_33_two: "ema_run (replicate 2 (f32 (33 / 10))) 0 = 10380902 / 2 ^ 22"
proof -
  have "ema_run (replicate 2 s) 0 = ema s (ema s 0)" for s
    by (simp add: ema_run_def numeral_2_eq_2)
  then show ?thesis
    by (simp only: ema_33_first ema_33_second)
qed

lemma ema_33_step:
  assumes "2 ^ 23 \<le> m" "m < 2 ^ 24"
  shows "ema (f32 (33 / 10)) (of_int m / 2 ^ 22) =
           of_int (round_half_even (of_int (13841203 + m) / 2)) / 2 ^ 22"
proof -
  have mr: "(2::real) ^ 23 \<le> of_int m" "of_int m < (2::real) ^ 24"
    using assms by simp_all
  have a: "f32 (f32 (33 / 10) / 2) = 13841203 / 2 ^ 23"
    unfolding f32_33_10
    by (rule f32_eval [where j = 23, THEN trans]) (simp_all add: round_half_even_def)
  have "\<bar>m\<bar> \<le> 2 ^ 24" using assms by simp
  from f32_exact [OF this, of 23] have b: "f32 (of_int m / 2 ^ 22 / 2) = of_int m / 2 ^ 23"
    by simp
  have c: "f32 (13841203 / 2 ^ 23 + of_int m / 2 ^ 23) =
      of_int (round_half_even (of_int (13841203 + m) / 2)) / 2 ^ 22"
  proof -
    define x :: real where "x = 13841203 / 2 ^ 23 + of_int m / 2 ^ 23"
    have x2: "x * 2 ^ 22 = of_int (13841203 + m) / 2"
      by (simp add: x_def)
    have xp: "\<bar>x\<bar> = x" using mr by (simp add: x_def)
    have lo: "2 ^ 23 \<le> \<bar>x\<bar> * 2 ^ 22" unfolding xp x2 using mr by simp
    have hi: "\<bar>x\<bar> * 2 ^ 22 < 2 ^ 24" unfolding xp x2 using mr by simp
    have "f32 x = of_int (round_half_even (of_int (13841203 + m) / 2)) / 2 ^ 22"
    proof (rule f32_eval [where j = 22])
      show "(22::nat) \<le> 149" by simp
      show "22 = (149::nat) \<or> 2 ^ 23 \<le> \<bar>x\<bar> * 2 ^ 22" using lo by (rule disjI2)
      show "\<bar>x\<bar> * 2 ^ 22 < 2 ^ 24" by (rule hi)
      show "round_half_even (x * 2 ^ 22) = round_half_even (of_int (13841203 + m) / 2)"
        by (simp only: x2)
    qed
    then show ?thesis by (simp only: x_def)
  qed
  show ?thesis
    by (simp only: ema_eq a b c)
qed

text \<open>The first 23 updates from 0 with the input \<^verbatim>\<open>3.3f\<close>, one after the other.\<close>

lemma ema_33_trajectory: "ema_run (replicate 23 (f32 (33 / 10))) 0 = 13841202 / 2 ^ 22"
proof -
  have st: "ema_run (replicate (Suc n) s) 0 = ema s (ema_run (replicate n s) 0)" for n s
    by (rule ema_run_step)
  have r2: "ema_run (replicate 2 (f32 (33 / 10))) 0 = of_int 10380902 / 2 ^ 22"
    using ema_run_33_two by simp
  have r3: "ema_run (replicate 3 (f32 (33 / 10))) 0 = of_int 12111052 / 2 ^ 22"
    using st [of 2 "f32 (33 / 10)"] ema_33_step [of 10380902] r2
    by (simp add: round_half_even_def)
  have r4: "ema_run (replicate 4 (f32 (33 / 10))) 0 = of_int 12976128 / 2 ^ 22"
    using st [of 3 "f32 (33 / 10)"] ema_33_step [of 12111052] r3
    by (simp add: round_half_even_def)
  have r5: "ema_run (replicate 5 (f32 (33 / 10))) 0 = of_int 13408666 / 2 ^ 22"
    using st [of 4 "f32 (33 / 10)"] ema_33_step [of 12976128] r4
    by (simp add: round_half_even_def)
  have r6: "ema_run (replicate 6 (f32 (33 / 10))) 0 = of_int 13624934 / 2 ^ 22"
    using st [of 5 "f32 (33 / 10)"] ema_33_step [of 13408666] r5
    by (simp add: round_half_even_def)
  have r7: "ema_run (replicate 7 (f32 (33 / 10))) 0 = of_int 13733068 / 2 ^ 22"
    using st [of 6 "f32 (33 / 10)"] ema_33_step [of 13624934] r6
    by (simp add: round_half_even_def)
  have r8: "ema_run (replicate 8 (f32 (33 / 10))) 0 = of_int 13787136 / 2 ^ 22"
    using st [of 7 "f32 (33 / 10)"] ema_33_step [of 13733068] r7
    by (simp add: round_half_even_def)
  have r9: "ema_run (replicate 9 (f32 (33 / 10))) 0 = of_int 13814170 / 2 ^ 22"
    using st [of 8 "f32 (33 / 10)"] ema_33_step [of 13787136] r8
    by (simp add: round_half_even_def)
  have r10: "ema_run (replicate 10 (f32 (33 / 10))) 0 = of_int 13827686 / 2 ^ 22"
    using st [of 9 "f32 (33 / 10)"] ema_33_step [of 13814170] r9
    by (simp add: round_half_even_def)
  have r11: "ema_run (replicate 11 (f32 (33 / 10))) 0 = of_int 13834444 / 2 ^ 22"
    using st [of 10 "f32 (33 / 10)"] ema_33_step [of 13827686] r10
    by (simp add: round_half_even_def)
  have r12: "ema_run (replicate 12 (f32 (33 / 10))) 0 = of_int 13837824 / 2 ^ 22"
    using st [of 11 "f32 (33 / 10)"] ema_33_step [of 13834444] r11
    by (simp add: round_half_even_def)
  have r13: "ema_run (replicate 13 (f32 (33 / 10))) 0 = of_int 13839514 / 2 ^ 22"
    using st [of 12 "f32 (33 / 10)"] ema_33_step [of 13837824] r12
    by (simp add: round_half_even_def)
  have r14: "ema_run (replicate 14 (f32 (33 / 10))) 0 = of_int 13840358 / 2 ^ 22"
    using st [of 13 "f32 (33 / 10)"] ema_33_step [of 13839514] r13
    by (simp add: round_half_even_def)
  have r15: "ema_run (replicate 15 (f32 (33 / 10))) 0 = of_int 13840780 / 2 ^ 22"
    using st [of 14 "f32 (33 / 10)"] ema_33_step [of 13840358] r14
    by (simp add: round_half_even_def)
  have r16: "ema_run (replicate 16 (f32 (33 / 10))) 0 = of_int 13840992 / 2 ^ 22"
    using st [of 15 "f32 (33 / 10)"] ema_33_step [of 13840780] r15
    by (simp add: round_half_even_def)
  have r17: "ema_run (replicate 17 (f32 (33 / 10))) 0 = of_int 13841098 / 2 ^ 22"
    using st [of 16 "f32 (33 / 10)"] ema_33_step [of 13840992] r16
    by (simp add: round_half_even_def)
  have r18: "ema_run (replicate 18 (f32 (33 / 10))) 0 = of_int 13841150 / 2 ^ 22"
    using st [of 17 "f32 (33 / 10)"] ema_33_step [of 13841098] r17
    by (simp add: round_half_even_def)
  have r19: "ema_run (replicate 19 (f32 (33 / 10))) 0 = of_int 13841176 / 2 ^ 22"
    using st [of 18 "f32 (33 / 10)"] ema_33_step [of 13841150] r18
    by (simp add: round_half_even_def)
  have r20: "ema_run (replicate 20 (f32 (33 / 10))) 0 = of_int 13841190 / 2 ^ 22"
    using st [of 19 "f32 (33 / 10)"] ema_33_step [of 13841176] r19
    by (simp add: round_half_even_def)
  have r21: "ema_run (replicate 21 (f32 (33 / 10))) 0 = of_int 13841196 / 2 ^ 22"
    using st [of 20 "f32 (33 / 10)"] ema_33_step [of 13841190] r20
    by (simp add: round_half_even_def)
  have r22: "ema_run (replicate 22 (f32 (33 / 10))) 0 = of_int 13841200 / 2 ^ 22"
    using st [of 21 "f32 (33 / 10)"] ema_33_step [of 13841196] r21
    by (simp add: round_half_even_def)
  have r23: "ema_run (replicate 23 (f32 (33 / 10))) 0 = of_int 13841202 / 2 ^ 22"
    using st [of 22 "f32 (33 / 10)"] ema_33_step [of 13841200] r22
    by (simp add: round_half_even_def)
  from r23 show ?thesis by simp
qed


lemma is_f32_33_10: "is_f32 (f32 (33 / 10))"
proof -
  have "f32 (f32 (33 / 10)) = f32 (33 / 10)" by (rule f32_idem)
  moreover have "\<bar>f32 (33 / 10)\<bar> < 2 ^ 128" by (simp add: f32_33_10)
  ultimately show ?thesis by (simp add: is_f32_def)
qed

lemma filtered_loop_meas:
  "meas_due (millis inp) st \<Longrightarrow>
   filtered_V (fst (loop_meas inp st)) =
     ema (fst (measureVoltage (use_hv_mode st) (adc inp))) (filtered_V st)"
  by (simp add: loop_meas_def split_beta)

lemma filtered_loop:
  "filtered_V (fst (loop pf inp st)) =
     (if meas_due (millis inp) st
      then ema (fst (measureVoltage (use_hv_mode st) (adc inp))) (filtered_V st)
      else filtered_V st)"
  by (simp add: fst_loop loop_hb_frame loop_disp_frame loop_ser_frame filtered_loop_meas)
    (simp add: loop_meas_def)

lemma start_state_eq:
  "start_state pf up a l =
     \<lparr> filtered_V = 0, last_disp_V = - 99, use_hv_mode = False, last_hv_mode = False,
       t_meas = 0, t_disp = 0, t_ser = 0, t_hb = 0, hw_atten = ADC_11db, led = False \<rparr>"
  by (simp add: start_state_def setup_sketch_def initHardware_def initSerial_def boot_def)

lemma filtered_inv_loop:
  assumes "is_f32 (filtered_V st)" "0 \<le> filtered_V st"
  shows "is_f32 (filtered_V (fst (loop pf inp st))) \<and> 0 \<le> filtered_V (fst (loop pf inp st))"
  using assms ema_is_f32 [OF measureVoltage_range(1,2,3) assms]
  by (simp add: filtered_loop)

lemma filtered_inv_run:
  "is_f32 (filtered_V st) \<Longrightarrow> 0 \<le> filtered_V st \<Longrightarrow>
   is_f32 (filtered_V (run pf inps st)) \<and> 0 \<le> filtered_V (run pf inps st)"
proof (induction inps arbitrary: st)
  case Nil
  then show ?case by simp
next
  case (Cons inp inps)
  from filtered_inv_loop [OF Cons.prems, of pf inp]
  show ?case by (simp add: Cons.IH)
qed

lemma filtered_reachable:
  "is_f32 (filtered_V (run pf inps (start_state pf up a l)))"
  "0 \<le> filtered_V (run pf inps (start_state pf up a l))"
proof -
  have "is_f32 (filtered_V (start_state pf up a l))" "0 \<le> filtered_V (start_state pf up a l)"
    by (simp_all add: start_state_eq is_f32_0)
  from filtered_inv_run [OF this] show
    "is_f32 (filtered_V (run pf inps (start_state pf up a l)))"
    "0 \<le> filtered_V (run pf inps (start_state pf up a l))"
    by simp_all
qed

text \<open>
  Claim C3, as the code has it. The filter update of \<^verbatim>\<open>loop()\<close> is
  \<open>filtered = ALPHA * sample + (1 - ALPHA) * filtered\<close> with \<open>ALPHA = 0.5\<close>, computed in
  \<^verbatim>\<open>float\<close>: each of the two products, the difference and the sum is rounded. Let the filter
  be fed the same sample \<open>s\<close> \<open>n\<close> times from \<open>f0\<close>, where \<open>s\<close> and \<open>f0\<close> are finite binary32
  numbers that are not negative and \<open>s\<close> is zero or at least \<open>2^-125\<close> (every measurement is
  such a number, and so is the filtered value in every state the program reaches). Then
  the output stays between \<open>f0\<close> and \<open>s\<close> and moves towards \<open>s\<close> or stays where it is at
  every update (it never decreases when \<open>f0\<close> is below \<open>s\<close>, never increases when \<open>f0\<close> is
  above); its distance from \<open>s\<close> never grows from one update to the next and is at most
  \<open>(1 - ALPHA)^n\<close> times the initial distance plus a rounding allowance of
  \<open>max f0 s / 2^21 + 2^-147\<close>; from the 21st update on it is at most
  \<open>max f0 s / 2^20 + 2^-147\<close>. From 0 with input 1 the output is 0.5 after one update,
  0.75 after two and 1023/1024, at least 0.999, after ten, with no rounding.
\<close>

theorem ema_constant_input_binary32:
  assumes "is_f32 s" "0 \<le> s" "s = 0 \<or> 1 / 2 ^ 125 \<le> s" "is_f32 f0" "0 \<le> f0"
  shows "ema sample prev = f32 (f32 (ALPHA * sample) + f32 (f32 (1 - ALPHA) * prev))
       \<and> ALPHA = 1 / 2
       \<and> filtered_V (fst (loop pf inp st)) =
           (if meas_due (millis inp) st
            then ema (fst (measureVoltage (use_hv_mode st) (adc inp))) (filtered_V st)
            else filtered_V st)
       \<and> is_f32 (fst (measureVoltage hv rd))
       \<and> 0 \<le> fst (measureVoltage hv rd)
       \<and> (fst (measureVoltage hv rd) = 0 \<or> 1 / 2 ^ 125 \<le> fst (measureVoltage hv rd))
       \<and> is_f32 (filtered_V (run pf inps (start_state pf up a l)))
       \<and> 0 \<le> filtered_V (run pf inps (start_state pf up a l))
       \<and> \<bar>ema_run (replicate n s) f0 - s\<bar>
           \<le> (1 - ALPHA) ^ n * \<bar>f0 - s\<bar> + max f0 s / 2 ^ 21 + 1 / 2 ^ 147
       \<and> \<bar>ema_run (replicate (Suc n) s) f0 - s\<bar> \<le> \<bar>ema_run (replicate n s) f0 - s\<bar>
       \<and> min f0 s \<le> ema_run (replicate n s) f0
       \<and> ema_run (replicate n s) f0 \<le> max f0 s
       \<and> (f0 \<le> s \<longrightarrow> ema_run (replicate n s) f0 \<le> ema_run (replicate (Suc n) s) f0)
       \<and> (s \<le> f0 \<longrightarrow> ema_run (replicate (Suc n) s) f0 \<le> ema_run (replicate n s) f0)
       \<and> \<bar>ema_run (replicate (21 + n) s) f0 - s\<bar> \<le> max f0 s / 2 ^ 20 + 1 / 2 ^ 147
       \<and> ema_run (replicate 1 1) 0 = 1 / 2
       \<and> ema_run (replicate 2 1) 0 = 3 / 4
       \<and> ema_run (replicate 10 1) 0 = 1023 / 1024
       \<and> 999 / 1000 \<le> ema_run (replicate 10 1) 0"
proof -
  have a: "ema sample prev = f32 (f32 (ALPHA * sample) + f32 (f32 (1 - ALPHA) * prev))"
    by (simp add: ema_def)
  have b: "ALPHA = 1 / 2" by (simp add: ALPHA_def)
  have i: "min f0 s \<le> ema_run (replicate n s) f0" "ema_run (replicate n s) f0 \<le> max f0 s"
    using ema_run_inv [OF assms, of n] by simp_all
  have m1: "f0 \<le> s \<longrightarrow> ema_run (replicate n s) f0 \<le> ema_run (replicate (Suc n) s) f0"
    using ema_run_monotone(1) [OF assms] by blast
  have m2: "s \<le> f0 \<longrightarrow> ema_run (replicate (Suc n) s) f0 \<le> ema_run (replicate n s) f0"
    using ema_run_monotone(2) [OF assms] by blast
  have e1: "ema_run (replicate 1 1) 0 = 1 / 2"
    using ema_run_ones [of 1] by simp
  have e2: "ema_run (replicate 2 1) 0 = 3 / 4"
    using ema_run_ones [of 2] by simp
  have e10: "ema_run (replicate 10 1) 0 = 1023 / 1024"
    using ema_run_ones [of 10] by simp
  have e10': "999 / 1000 \<le> ema_run (replicate 10 1) 0"
    by (simp add: e10)
  show ?thesis
    by (intro conjI a b filtered_loop measureVoltage_range(1,2,3) filtered_reachable
        ema_run_error [OF assms]
        ema_run_error_decreases [OF assms] i m1 m2 ema_run_settled [OF assms] e1 e2 e10 e10')
qed

text \<open>
  The theorem for the direct range at full scale, \<open>s\<close> = \<^verbatim>\<open>3.3f\<close>, from 0: after two updates
  the output is 10380902 / \<open>2^22\<close>, within the bound with its rounding allowance.
\<close>

theorem ema_constant_input_binary32_witness:
  "is_f32 (f32 (33 / 10)) \<and> 0 \<le> f32 (33 / 10) \<and> 1 / 2 ^ 125 \<le> f32 (33 / 10) \<and> is_f32 0
 \<and> ema_run (replicate 2 (f32 (33 / 10))) 0 = 10380902 / 2 ^ 22
 \<and> \<bar>ema_run (replicate 2 (f32 (33 / 10))) 0 - f32 (33 / 10)\<bar>
     \<le> (1 - ALPHA) ^ 2 * \<bar>0 - f32 (33 / 10)\<bar> + max 0 (f32 (33 / 10)) / 2 ^ 21 + 1 / 2 ^ 147
 \<and> \<bar>ema_run (replicate (Suc 2) (f32 (33 / 10))) 0 - f32 (33 / 10)\<bar>
     \<le> \<bar>ema_run (replicate 2 (f32 (33 / 10))) 0 - f32 (33 / 10)\<bar>
 \<and> ema_run (replicate 2 (f32 (33 / 10))) 0 \<le> max 0 (f32 (33 / 10))
 \<and> ema_run (replicate 2 (f32 (33 / 10))) 0 \<le> ema_run (replicate (Suc 2) (f32 (33 / 10))) 0"
proof -
  have h1: "is_f32 (f32 (33 / 10))" by (rule is_f32_33_10)
  have h2: "0 \<le> f32 (33 / 10)" by (simp add: f32_33_10)
  have h3': "1 / 2 ^ 125 \<le> f32 (33 / 10)" by (simp add: f32_33_10)
  then have h3: "f32 (33 / 10) = 0 \<or> 1 / 2 ^ 125 \<le> f32 (33 / 10)" by (rule disjI2)
  have h4: "is_f32 0" by (rule is_f32_0)
  have h5: "(0::real) \<le> 0" by simp
  note t = ema_constant_input_binary32 [OF h1 h2 h3 h4 h5, where n = 2]
  from t have c1: "\<bar>ema_run (replicate 2 (f32 (33 / 10))) 0 - f32 (33 / 10)\<bar>
     \<le> (1 - ALPHA) ^ 2 * \<bar>0 - f32 (33 / 10)\<bar> + max 0 (f32 (33 / 10)) / 2 ^ 21 + 1 / 2 ^ 147"
    by blast
  from t have c2: "\<bar>ema_run (replicate (Suc 2) (f32 (33 / 10))) 0 - f32 (33 / 10)\<bar>
     \<le> \<bar>ema_run (replicate 2 (f32 (33 / 10))) 0 - f32 (33 / 10)\<bar>"
    by blast
  from t have c3: "ema_run (replicate 2 (f32 (33 / 10))) 0 \<le> max 0 (f32 (33 / 10))"
    by blast
  from t h2 have c4: "ema_run (replicate 2 (f32 (33 / 10))) 0
      \<le> ema_run (replicate (Suc 2) (f32 (33 / 10))) 0"
    by blast
  show ?thesis
    by (intro conjI h1 h2 h3' h4 ema_run_33_two c1 c2 c3 c4)
qed

text \<open>
  Claim C3 as stated fails: the bound \<open>(1 - ALPHA)^n\<close> times the initial distance does not
  hold of the \<^verbatim>\<open>float\<close> computation. From 0 with the input \<^verbatim>\<open>3.3f\<close> (the direct range at full
  scale) the output after two updates is 10380902 / \<open>2^22\<close>, and its distance from the
  input, 3460301 / \<open>2^22\<close>, is more than a quarter of the initial distance
  13841203 / \<open>2^22\<close>. Nor does the output reach the input: after 23 updates it is one
  binary32 step, \<open>2^-22\<close>, below \<^verbatim>\<open>3.3f\<close>, and there the update returns its argument, so
  that the output stays one step below the input for ever.
\<close>

theorem ema_error_exceeds_bound:
  "is_f32 (f32 (33 / 10))
 \<and> f32 (33 / 10) = 13841203 / 2 ^ 22
 \<and> ema_run (replicate 2 (f32 (33 / 10))) 0 = 10380902 / 2 ^ 22
 \<and> (1 - ALPHA) ^ 2 * \<bar>0 - f32 (33 / 10)\<bar>
     < \<bar>ema_run (replicate 2 (f32 (33 / 10))) 0 - f32 (33 / 10)\<bar>
 \<and> ema_run (replicate 23 (f32 (33 / 10))) 0 = f32 (33 / 10) - 1 / 2 ^ 22
 \<and> ema (f32 (33 / 10)) (f32 (33 / 10) - 1 / 2 ^ 22) = f32 (33 / 10) - 1 / 2 ^ 22"
proof -
  have r: "ema_run (replicate 23 (f32 (33 / 10))) 0 = f32 (33 / 10) - 1 / 2 ^ 22"
    using ema_33_trajectory by (simp add: f32_33_10)
  have "(1 - ALPHA) ^ 2 * \<bar>0 - f32 (33 / 10)\<bar>
     < \<bar>ema_run (replicate 2 (f32 (33 / 10))) 0 - f32 (33 / 10)\<bar>"
    unfolding ema_run_33_two by (simp add: f32_33_10 ALPHA_def power2_eq_square)
  then show ?thesis
    by (intro conjI is_f32_33_10 f32_33_10 ema_run_33_two r ema_33_stuck)
qed

subsection \<open>The scheduler on a periodic tick\<close>












subsection \<open>The report line\<close>

lemma digit_char_in: "digit_char d \<in> set ''0123456789''"
  unfolding digit_char_def by (rule nth_mem) simp

lemma dec_digits_nonempty: "dec_digits n \<noteq> []"
  by (subst dec_digits.simps) simp

lemma dec_digits_set: "set (dec_digits n) \<subseteq> set ''0123456789''"
proof (induction n rule: dec_digits.induct)
  case (1 n)
  show ?case
  proof (cases "n < 10")
    case True
    then show ?thesis using digit_char_in [of n] by (subst dec_digits.simps) simp
  next
    case False
    then show ?thesis using 1 digit_char_in [of "n mod 10"] by (subst dec_digits.simps) simp
  qed
qed

lemma length_dec_digits: "length (dec_digits n) \<le> Suc k \<longleftrightarrow> n < 10 ^ Suc k"
proof (induction k arbitrary: n)
  case 0
  show ?case
    using dec_digits_nonempty [of "n div 10"] by (subst dec_digits.simps) simp
next
  case (Suc k)
  show ?case
  proof (cases "n < 10")
    case True
    have "(10::nat) \<le> 10 ^ Suc (Suc k)" by simp
    with True have "n < 10 ^ Suc (Suc k)" by linarith
    with True show ?thesis by (subst dec_digits.simps) simp
  next
    case False
    have "n div 10 < 10 ^ Suc k \<longleftrightarrow> n < 10 ^ Suc (Suc k)"
      by (simp add: div_less_iff_less_mult mult.commute)
    with False Suc [of "n div 10"] show ?thesis by (subst dec_digits.simps) simp
  qed
qed

lemma length_frac_digits: "length (frac_digits p m) = p"
  by (induction p arbitrary: m) simp_all

lemma frac_digits_set: "set (frac_digits p m) \<subseteq> set ''0123456789''"
proof (induction p arbitrary: m)
  case 0
  show ?case by simp
next
  case (Suc p)
  show ?case using Suc [of "m div 10"] digit_char_in [of "m mod 10"] by simp
qed

lemma fixed_digits_shape:
  "\<exists>ip fp. fixed_digits 4 v = (if v < 0 then ''-'' else '''') @ ip @ ''.'' @ fp
       \<and> ip \<noteq> [] \<and> length fp = 4 \<and> set ip \<subseteq> set ''0123456789'' \<and> set fp \<subseteq> set ''0123456789''"
  unfolding fixed_digits_def Let_def
  using dec_digits_nonempty dec_digits_set frac_digits_set length_frac_digits
  by (intro exI conjI) (simp_all only: numeral_eq_Suc [of "num.Bit0 (num.Bit0 num.One)"] nat.simps if_False refl)

lemma fixed_digits_len: "6 \<le> length (fixed_digits 4 v)"
proof -
  obtain ip fp where *: "fixed_digits 4 v = (if v < 0 then ''-'' else '''') @ ip @ ''.'' @ fp"
     "ip \<noteq> []" "length fp = 4"
    using fixed_digits_shape [of v] by blast
  have "1 \<le> length ip" using *(2) by (simp add: Suc_le_eq)
  then show ?thesis unfolding *(1) using *(3) by simp
qed

lemma seven_digits: "7 \<le> length (dec_digits n) \<longleftrightarrow> 1000000 \<le> n"
proof -
  have "length (dec_digits n) \<le> Suc 5 \<longleftrightarrow> n < 10 ^ Suc 5"
    by (rule length_dec_digits)
  moreover have "\<not> 7 \<le> length (dec_digits n) \<longleftrightarrow> length (dec_digits n) \<le> Suc 5"
    by linarith
  moreover have "\<not> 1000000 \<le> n \<longleftrightarrow> n < 10 ^ Suc 5"
    by (simp add: not_le)
  ultimately show ?thesis by blast
qed

lemma report_line_padded:
  "report_line now v =
     replicate (7 - length (dec_digits (unat now))) CHR '' '' @ dec_digits (unat now)
     @ '', '' @ fixed_digits 4 v @ [CHR 0x0A]"
  using fixed_digits_len [of v]
  by (simp add: report_line_def fmt_u_def fmt_f_def pad_left_def)

text \<open>
  Claim C6, as the code has it. Every line the report activity emits is the timestamp in
  decimal, right-aligned in a field of seven characters (\<^verbatim>\<open>%7u\<close>: padded on the left with
  spaces while it has fewer than seven digits, that is below 1000000 ms), then a comma
  and a space, then the filtered value with exactly four fractional digits (\<^verbatim>\<open>%6.4f\<close>: a
  sign if negative, at least one integer digit, a point, four digits; never padded, since
  that is already six characters), then one newline, and nothing else.
\<close>

theorem report_line_format:
  "printVolts inp st =
     (if serial_up inp then [SerialPrint (report_line (millis inp) (filtered_V st))] else [])
 \<and> report_line now v =
       replicate (7 - length (dec_digits (unat now))) CHR '' '' @ dec_digits (unat now)
       @ '', '' @ fixed_digits 4 v @ [CHR 0x0A]
 \<and> (7 \<le> length (dec_digits (unat now)) \<longleftrightarrow> 1000000 \<le> unat now)
 \<and> dec_digits (unat now) \<noteq> []
 \<and> set (dec_digits (unat now)) \<subseteq> set ''0123456789''
 \<and> (\<exists>ip fp. fixed_digits 4 v = (if v < 0 then ''-'' else '''') @ ip @ ''.'' @ fp
       \<and> ip \<noteq> [] \<and> length fp = 4
       \<and> set ip \<subseteq> set ''0123456789'' \<and> set fp \<subseteq> set ''0123456789'')"
proof -
  have p: "printVolts inp st =
     (if serial_up inp then [SerialPrint (report_line (millis inp) (filtered_V st))] else [])"
    by (simp add: printVolts_def echo_def)
  show ?thesis
    by (intro conjI p report_line_padded seven_digits dec_digits_nonempty dec_digits_set
        fixed_digits_shape)
qed

text \<open>
  Claim C6 as stated fails: at 101 ms with the filter at 0 the line is the timestamp
  behind four spaces, not the bare number.
\<close>

theorem report_line_leading_spaces:
  "printVolts (demo_inputs 101 0 True) (demo_state 0 0 False) =
     [SerialPrint (''    101, 0.0000'' @ [CHR 0x0A])]
 \<and> printVolts (demo_inputs 101 0 True) (demo_state 0 0 False) \<noteq>
     [SerialPrint (''101, 0.0000'' @ [CHR 0x0A])]"
  by code_simp

subsection \<open>The displayed number\<close>

text \<open>
  Claim C7. The number \<^verbatim>\<open>updateMainUI\<close> prints in the large font is the value it is given
  times the display scale of the range in \<^verbatim>\<open>use_hv_mode\<close> (10 in the attenuated range, the
  product rounded to \<^verbatim>\<open>float\<close>; 1 in the direct one), formatted by
  \<^verbatim>\<open>dtostrf(displayVal, 5, 2, sbuf)\<close>, and the unit printed after it is \<^verbatim>\<open>kV\<close> or \<^verbatim>\<open>V\<close>. In the
  attenuated range 0.0500 is scaled to 0.5 and drawn as \<^verbatim>\<open> 0.50\<close> with \<^verbatim>\<open>kV\<close>; in the direct
  range 1.650 stays 1.65 and is drawn as \<^verbatim>\<open> 1.65\<close> with \<^verbatim>\<open>V\<close>. The same is drawn for the
  \<^verbatim>\<open>float\<close> values \<^verbatim>\<open>0.05f\<close> and \<^verbatim>\<open>1.65f\<close>.
\<close>

theorem updateMainUI_scaled_value:
  "updateMainUI pf hv val ! 4 = Print (dtostrf (if hv then f32 (val * 10) else val) 5 2)
 \<and> \<bar>(if hv then f32 (val * 10) else val) - (if hv then 10 else 1) * val\<bar>
     \<le> \<bar>val\<bar> * 10 / 2 ^ 24 + 1 / 2 ^ 150
 \<and> updateMainUI pf hv val ! 10 = Print (if hv then ''kV'' else ''V'')
 \<and> displayVal True (5 / 100) = 5 / 10
 \<and> updateMainUI demo_platform True (5 / 100) ! 4 = Print '' 0.50''
 \<and> updateMainUI demo_platform True (5 / 100) ! 10 = Print ''kV''
 \<and> displayVal False (165 / 100) = 165 / 100
 \<and> updateMainUI demo_platform False (165 / 100) ! 4 = Print '' 1.65''
 \<and> updateMainUI demo_platform False (165 / 100) ! 10 = Print ''V''
 \<and> displayVal True (f32 (5 / 100)) = 5 / 10
 \<and> updateMainUI demo_platform True (f32 (5 / 100)) ! 4 = Print '' 0.50''
 \<and> updateMainUI demo_platform False (f32 (165 / 100)) ! 4 = Print '' 1.65''"
proof -
  have n: "updateMainUI pf hv val ! 4 = Print (dtostrf (if hv then f32 (val * 10) else val) 5 2)"
    for pf hv val
    by (simp add: updateMainUI_def Let_def displayVal_def)
  have r: "\<bar>(if hv then f32 (val * 10) else val) - (if hv then 10 else 1) * val\<bar>
      \<le> \<bar>val\<bar> * 10 / 2 ^ 24 + 1 / 2 ^ 150"
  proof (cases hv)
    case True
    then show ?thesis using f32_rel_err [of "val * 10"] by (simp add: abs_mult mult.commute)
  next
    case False
    then show ?thesis by simp
  qed
  have u: "updateMainUI pf hv val ! 10 = Print (if hv then ''kV'' else ''V'')" for pf hv val
    by (simp add: updateMainUI_def Let_def unit_label_def)
  have h: "f32 (5 / 100 * 10) = 1 / 2"
    using f32_half by simp
  have d1: "displayVal True (5 / 100) = 5 / 10" and d2: "displayVal False (165 / 100) = 165 / 100"
    by (simp_all add: displayVal_def f32_half)
  have s1: "dtostrf (1 / 2) 5 2 = '' 0.50''" and s2: "dtostrf (165 / 100) 5 2 = '' 1.65''"
    by code_simp+
  have p1: "updateMainUI demo_platform True (5 / 100) ! 4 = Print '' 0.50''"
    by (simp only: n if_True h s1)
  have p2: "updateMainUI demo_platform False (165 / 100) ! 4 = Print '' 1.65''"
    by (simp only: n if_False s2)
  have q1: "updateMainUI demo_platform True (5 / 100) ! 10 = Print ''kV''"
    by (simp only: u if_True)
  have q2: "updateMainUI demo_platform False (165 / 100) ! 10 = Print ''V''"
    by (simp only: u if_False)
  have v1: "f32 (5 / 100) = 13421773 / 2 ^ 28"
    by (rule f32_eval [where j = 28, THEN trans]) (simp_all add: round_half_even_def)
  have v2: "f32 (13421773 / 2 ^ 28 * 10) = 1 / 2"
    by (rule f32_eval [where j = 24, THEN trans]) (simp_all add: round_half_even_def)
  have v3: "f32 (165 / 100) = 13841203 / 2 ^ 23"
    by (rule f32_eval [where j = 23, THEN trans]) (simp_all add: round_half_even_def)
  have d3: "displayVal True (f32 (5 / 100)) = 5 / 10"
    unfolding displayVal_def if_True v1 v2 by simp
  have s3: "dtostrf (13841203 / 2 ^ 23) 5 2 = '' 1.65''"
    by code_simp
  have p3: "updateMainUI demo_platform True (f32 (5 / 100)) ! 4 = Print '' 0.50''"
    by (simp only: n if_True v1 v2 s1)
  have p4: "updateMainUI demo_platform False (f32 (165 / 100)) ! 4 = Print '' 1.65''"
    by (simp only: n if_False v3 s3)
  show ?thesis
    by (intro conjI n r u d1 d2 p1 p2 q1 q2 d3 p3 p4)
qed

subsection \<open>What the report depends on\<close>

text \<open>
  Claim C10. \<^verbatim>\<open>printVolts\<close> reads the clock and \<^verbatim>\<open>filtered_V\<close> and nothing else: two states
  with the same filtered value give the same output at the same clock, whatever their
  ranges, and the number in the line is \<^verbatim>\<open>filtered_V\<close> itself, the voltage at the pin; the
  factor 10 of the attenuated range's display is not applied.
\<close>

theorem printVolts_range_independent:
  assumes "filtered_V s1 = filtered_V s2"
  shows "printVolts inp s1 = printVolts inp s2
       \<and> printVolts inp s1 =
           echo (serial_up inp) (fmt_u 7 (millis inp) @ '', '' @ fmt_f 6 4 (filtered_V s1) @ [CHR 0x0A])"
  using assms by (simp add: printVolts_def report_line_def)

text \<open>
  The theorem at 1010 ms with 0.05 V at the pin, once in the attenuated and once in the
  direct range: the same line, showing 0.0500, while the attenuated display shows 0.50.
\<close>

theorem printVolts_range_independent_witness:
  "filtered_V (demo_state (5 / 100) 0 True) = filtered_V (demo_state (5 / 100) 0 False)
 \<and> use_hv_mode (demo_state (5 / 100) 0 True) \<noteq> use_hv_mode (demo_state (5 / 100) 0 False)
 \<and> printVolts (demo_inputs 1010 0 False) (demo_state (5 / 100) 0 True) =
       printVolts (demo_inputs 1010 0 False) (demo_state (5 / 100) 0 False)
 \<and> printVolts (demo_inputs 1010 0 False) (demo_state (5 / 100) 0 True) =
       [SerialPrint (''   1010, 0.0500'' @ [CHR 0x0A])]"
proof -
  have h: "filtered_V (demo_state (5 / 100) 0 True) = filtered_V (demo_state (5 / 100) 0 False)"
    by (simp add: demo_state_sel)
  have r: "use_hv_mode (demo_state (5 / 100) 0 True) \<noteq> use_hv_mode (demo_state (5 / 100) 0 False)"
    by (simp add: demo_state_sel)
  have e: "printVolts (demo_inputs 1010 0 False) (demo_state (5 / 100) 0 True) =
       [SerialPrint (''   1010, 0.0500'' @ [CHR 0x0A])]"
    by code_simp
  from printVolts_range_independent [OF h, of "demo_inputs 1010 0 False"]
  have "printVolts (demo_inputs 1010 0 False) (demo_state (5 / 100) 0 True) =
       printVolts (demo_inputs 1010 0 False) (demo_state (5 / 100) 0 False)"
    by (rule conjunct1)
  then show ?thesis
    by (intro conjI h r e)
qed

subsection \<open>Range and attenuation\<close>

lemma atten_of_iff: "(atten_of hv = ADC_0db) = hv" "(atten_of hv = ADC_11db) = (\<not> hv)"
  by (simp_all add: atten_of_def)

lemma gain_matches_start: "gain_matches (start_state pf up a l)"
  by (simp add: gain_matches_def start_state_def setup_sketch_def initHardware_def initSerial_def
      boot_def atten_of_def)

lemma gain_matches_dispVolts:
  assumes "hw_atten st = atten_of (last_hv_mode st)"
  shows "gain_matches (fst (dispVolts pf inp st))"
    and "use_hv_mode (fst (dispVolts pf inp st)) = (\<not> mode_pin inp)"
  using assms by (simp_all add: gain_matches_def dispVolts_def Let_def split_beta)

lemma gain_matches_loop_disp: "gain_matches st \<Longrightarrow> gain_matches (fst (loop_disp pf inp st))"
  using gain_matches_dispVolts(1) [of "st\<lparr>t_disp := millis inp\<rparr>" pf inp]
  by (simp add: loop_disp_def gain_matches_def)

lemma gain_matches_loop: "gain_matches st \<Longrightarrow> gain_matches (fst (loop pf inp st))"
proof -
  assume g: "gain_matches st"
  have 1: "gain_matches (fst (loop_meas inp st))"
    using g by (simp add: gain_matches_def loop_meas_frame)
  have 2: "gain_matches (fst (loop_ser inp (fst (loop_meas inp st))))"
    using 1 by (simp add: gain_matches_def loop_ser_frame)
  have 3: "gain_matches (fst (loop_disp pf inp (fst (loop_ser inp (fst (loop_meas inp st))))))"
    using 2 by (rule gain_matches_loop_disp)
  show ?thesis
    using 3 by (simp add: fst_loop gain_matches_def loop_hb_frame)
qed

lemma gain_matches_run: "gain_matches st \<Longrightarrow> gain_matches (run pf inps st)"
  by (induction inps arbitrary: st) (simp_all add: gain_matches_loop)

text \<open>
  Claim C8. After \<^verbatim>\<open>setup()\<close> the ADC is at 11 dB and the direct range is active. After any
  number of passes of \<^verbatim>\<open>loop()\<close>, on any inputs, and after any call of \<^verbatim>\<open>dispVolts\<close> made from
  such a state, the attenuation configured in the ADC is 0 dB exactly when
  \<^verbatim>\<open>use_hv_mode\<close> (the range the rest of the sketch reads) is the attenuated one and 11 dB
  exactly when it is the direct one; and the range \<^verbatim>\<open>dispVolts\<close> leaves is the one the mode
  pin selects (LOW is attenuated).
\<close>

theorem attenuation_matches_range:
  "(hw_atten (start_state pf up a l) = ADC_11db \<and> \<not> use_hv_mode (start_state pf up a l))
 \<and> (hw_atten (run pf inps (start_state pf up a l)) = ADC_0db
      \<longleftrightarrow> use_hv_mode (run pf inps (start_state pf up a l)))
 \<and> (hw_atten (run pf inps (start_state pf up a l)) = ADC_11db
      \<longleftrightarrow> \<not> use_hv_mode (run pf inps (start_state pf up a l)))
 \<and> (hw_atten (fst (dispVolts pf inp (run pf inps (start_state pf up a l)))) = ADC_0db
      \<longleftrightarrow> use_hv_mode (fst (dispVolts pf inp (run pf inps (start_state pf up a l)))))
 \<and> (hw_atten (fst (dispVolts pf inp (run pf inps (start_state pf up a l)))) = ADC_11db
      \<longleftrightarrow> \<not> use_hv_mode (fst (dispVolts pf inp (run pf inps (start_state pf up a l)))))
 \<and> use_hv_mode (fst (dispVolts pf inp (run pf inps (start_state pf up a l)))) = (\<not> mode_pin inp)"
proof -
  let ?st = "run pf inps (start_state pf up a l)"
  have s: "hw_atten (start_state pf up a l) = ADC_11db \<and> \<not> use_hv_mode (start_state pf up a l)"
    by (simp add: start_state_def setup_sketch_def initHardware_def initSerial_def boot_def)
  have g: "gain_matches ?st"
    by (rule gain_matches_run) (rule gain_matches_start)
  then have h: "hw_atten ?st = atten_of (last_hv_mode ?st)"
    by (simp add: gain_matches_def)
  have d: "gain_matches (fst (dispVolts pf inp ?st))"
    by (rule gain_matches_dispVolts(1) [OF h])
  show ?thesis
    using s g d gain_matches_dispVolts(2) [OF h, of pf inp]
    by (simp add: gain_matches_def atten_of_iff)
qed


subsection \<open>When the mode pin is read\<close>



















end
